theory Spec2Isabelle
  imports Main
begin

section \<open>Symbols and fields of the Lox grammar\<close>

text \<open>
  The anonymous \<^verbatim>\<open>enum\<close> of symbol ids in \<^verbatim>\<open>parser.c\<close>, in the order of
  their values 0 to 35. \<^verbatim>\<open>ts_builtin_sym_end\<close> (value 0) and
  \<^verbatim>\<open>ts_builtin_sym_error\<close> (value \<^verbatim>\<open>(TSSymbol)-1\<close>) come from
  \<^verbatim>\<open>tree_sitter/parser.h\<close>.
\<close>

datatype TSSymbol =
    ts_builtin_sym_end
  | anon_sym_SEMI
  | anon_sym_print
  | anon_sym_COMMA
  | anon_sym_EQ_EQ
  | anon_sym_BANG_EQ
  | anon_sym_LT
  | anon_sym_LT_EQ
  | anon_sym_GT
  | anon_sym_GT_EQ
  | anon_sym_PLUS
  | anon_sym_DASH
  | anon_sym_STAR
  | anon_sym_SLASH
  | anon_sym_QMARK
  | anon_sym_COLON
  | anon_sym_BANG
  | anon_sym_LPAREN
  | anon_sym_RPAREN
  | sym_number
  | sym_string
  | anon_sym_true
  | anon_sym_false
  | sym_nil
  | sym_program
  | sym__statement
  | sym_expression_statement
  | sym_print_statement
  | sym__expression
  | sym_binary_expression
  | sym_ternary_expression
  | sym_unary_expression
  | sym_group_expression
  | sym__literal_expression
  | sym_boolean
  | aux_sym_program_repeat1
  | ts_builtin_sym_error

type_synonym TSStateId = nat

section \<open>The lexer \<^verbatim>\<open>ts_lex\<close>\<close>

text \<open>
  What one pass through the \<^verbatim>\<open>switch\<close> of \<^verbatim>\<open>ts_lex\<close> ends with: the
  macros \<^verbatim>\<open>ADVANCE(s)\<close> and \<^verbatim>\<open>SKIP(s)\<close> jump to \<^verbatim>\<open>next_state\<close> with
  the new state (\<^verbatim>\<open>SKIP\<close> also sets \<^verbatim>\<open>skip\<close>), \<^verbatim>\<open>END_STATE()\<close> returns
  \<^verbatim>\<open>result\<close>.
\<close>

datatype lex_goto = ADVANCE nat | SKIP nat | END_STATE

text \<open>
  The body of the \<^verbatim>\<open>switch (state)\<close>, case by case. The first component is the
  symbol of the case's \<^verbatim>\<open>ACCEPT_TOKEN\<close>, if it has one; the second is the first
  \<^verbatim>\<open>if\<close> that fires, or \<^verbatim>\<open>END_STATE()\<close>. \<open>lookahead\<close> is the
  \<^verbatim>\<open>int32_t\<close> code point under the cursor; character constants are written as
  their codes, the character in a comment. The \<^verbatim>\<open>default\<close> case returns
  \<^verbatim>\<open>false\<close>, which is \<^verbatim>\<open>END_STATE()\<close> without an accepted token.
\<close>

definition ts_lex_state :: "nat \<Rightarrow> bool \<Rightarrow> int \<Rightarrow> TSSymbol option \<times> lex_goto" where
  "ts_lex_state state eof lookahead =
    (if state = 0 then (None,
       if eof then ADVANCE 20
       else if lookahead = 33 \<comment> \<open>!\<close> then ADVANCE 37
       else if lookahead = 34 \<comment> \<open>double quote\<close> then ADVANCE 2
       else if lookahead = 40 \<comment> \<open>(\<close> then ADVANCE 38
       else if lookahead = 41 \<comment> \<open>)\<close> then ADVANCE 39
       else if lookahead = 42 \<comment> \<open>*\<close> then ADVANCE 32
       else if lookahead = 43 \<comment> \<open>+\<close> then ADVANCE 30
       else if lookahead = 44 \<comment> \<open>,\<close> then ADVANCE 23
       else if lookahead = 45 \<comment> \<open>-\<close> then ADVANCE 31
       else if lookahead = 47 \<comment> \<open>/\<close> then ADVANCE 33
       else if lookahead = 58 \<comment> \<open>:\<close> then ADVANCE 35
       else if lookahead = 59 \<comment> \<open>;\<close> then ADVANCE 21
       else if lookahead = 60 \<comment> \<open><\<close> then ADVANCE 26
       else if lookahead = 61 \<comment> \<open>=\<close> then ADVANCE 4
       else if lookahead = 62 \<comment> \<open>>\<close> then ADVANCE 28
       else if lookahead = 63 \<comment> \<open>?\<close> then ADVANCE 34
       else if lookahead = 102 \<comment> \<open>f\<close> then ADVANCE 5
       else if lookahead = 110 \<comment> \<open>n\<close> then ADVANCE 9
       else if lookahead = 112 \<comment> \<open>p\<close> then ADVANCE 14
       else if lookahead = 116 \<comment> \<open>t\<close> then ADVANCE 13
       else if lookahead = 9 \<or> lookahead = 10 \<or> lookahead = 13 \<or> lookahead = 32
         \<comment> \<open>tab, newline, carriage return, space\<close> then SKIP 0
       else if 48 \<le> lookahead \<and> lookahead \<le> 57 \<comment> \<open>0 to 9\<close> then ADVANCE 40
       else END_STATE)
     else if state = 1 then (None,
       if lookahead = 33 \<comment> \<open>!\<close> then ADVANCE 3
       else if lookahead = 41 \<comment> \<open>)\<close> then ADVANCE 39
       else if lookahead = 42 \<comment> \<open>*\<close> then ADVANCE 32
       else if lookahead = 43 \<comment> \<open>+\<close> then ADVANCE 30
       else if lookahead = 44 \<comment> \<open>,\<close> then ADVANCE 23
       else if lookahead = 45 \<comment> \<open>-\<close> then ADVANCE 31
       else if lookahead = 47 \<comment> \<open>/\<close> then ADVANCE 33
       else if lookahead = 58 \<comment> \<open>:\<close> then ADVANCE 35
       else if lookahead = 59 \<comment> \<open>;\<close> then ADVANCE 21
       else if lookahead = 60 \<comment> \<open><\<close> then ADVANCE 26
       else if lookahead = 61 \<comment> \<open>=\<close> then ADVANCE 4
       else if lookahead = 62 \<comment> \<open>>\<close> then ADVANCE 28
       else if lookahead = 63 \<comment> \<open>?\<close> then ADVANCE 34
       else if lookahead = 9 \<or> lookahead = 10 \<or> lookahead = 13 \<or> lookahead = 32
         then SKIP 1
       else END_STATE)
     else if state = 2 then (None,
       if lookahead = 34 \<comment> \<open>double quote\<close> then ADVANCE 42
       else if lookahead \<noteq> 0 then ADVANCE 2
       else END_STATE)
     else if state = 3 then (None, if lookahead = 61 \<comment> \<open>=\<close> then ADVANCE 25 else END_STATE)
     else if state = 4 then (None, if lookahead = 61 \<comment> \<open>=\<close> then ADVANCE 24 else END_STATE)
     else if state = 5 then (None, if lookahead = 97 \<comment> \<open>a\<close> then ADVANCE 10 else END_STATE)
     else if state = 6 then (None, if lookahead = 101 \<comment> \<open>e\<close> then ADVANCE 43 else END_STATE)
     else if state = 7 then (None, if lookahead = 101 \<comment> \<open>e\<close> then ADVANCE 44 else END_STATE)
     else if state = 8 then (None, if lookahead = 105 \<comment> \<open>i\<close> then ADVANCE 12 else END_STATE)
     else if state = 9 then (None, if lookahead = 105 \<comment> \<open>i\<close> then ADVANCE 11 else END_STATE)
     else if state = 10 then (None, if lookahead = 108 \<comment> \<open>l\<close> then ADVANCE 15 else END_STATE)
     else if state = 11 then (None, if lookahead = 108 \<comment> \<open>l\<close> then ADVANCE 45 else END_STATE)
     else if state = 12 then (None, if lookahead = 110 \<comment> \<open>n\<close> then ADVANCE 16 else END_STATE)
     else if state = 13 then (None, if lookahead = 114 \<comment> \<open>r\<close> then ADVANCE 17 else END_STATE)
     else if state = 14 then (None, if lookahead = 114 \<comment> \<open>r\<close> then ADVANCE 8 else END_STATE)
     else if state = 15 then (None, if lookahead = 115 \<comment> \<open>s\<close> then ADVANCE 7 else END_STATE)
     else if state = 16 then (None, if lookahead = 116 \<comment> \<open>t\<close> then ADVANCE 22 else END_STATE)
     else if state = 17 then (None, if lookahead = 117 \<comment> \<open>u\<close> then ADVANCE 6 else END_STATE)
     else if state = 18 then (None,
       if 48 \<le> lookahead \<and> lookahead \<le> 57 then ADVANCE 41 else END_STATE)
     else if state = 19 then (None,
       if eof then ADVANCE 20
       else if lookahead = 33 \<comment> \<open>!\<close> then ADVANCE 36
       else if lookahead = 34 \<comment> \<open>double quote\<close> then ADVANCE 2
       else if lookahead = 40 \<comment> \<open>(\<close> then ADVANCE 38
       else if lookahead = 45 \<comment> \<open>-\<close> then ADVANCE 31
       else if lookahead = 102 \<comment> \<open>f\<close> then ADVANCE 5
       else if lookahead = 110 \<comment> \<open>n\<close> then ADVANCE 9
       else if lookahead = 112 \<comment> \<open>p\<close> then ADVANCE 14
       else if lookahead = 116 \<comment> \<open>t\<close> then ADVANCE 13
       else if lookahead = 9 \<or> lookahead = 10 \<or> lookahead = 13 \<or> lookahead = 32
         then SKIP 19
       else if 48 \<le> lookahead \<and> lookahead \<le> 57 then ADVANCE 40
       else END_STATE)
     else if state = 20 then (Some ts_builtin_sym_end, END_STATE)
     else if state = 21 then (Some anon_sym_SEMI, END_STATE)
     else if state = 22 then (Some anon_sym_print, END_STATE)
     else if state = 23 then (Some anon_sym_COMMA, END_STATE)
     else if state = 24 then (Some anon_sym_EQ_EQ, END_STATE)
     else if state = 25 then (Some anon_sym_BANG_EQ, END_STATE)
     else if state = 26 then (Some anon_sym_LT,
       if lookahead = 61 \<comment> \<open>=\<close> then ADVANCE 27 else END_STATE)
     else if state = 27 then (Some anon_sym_LT_EQ, END_STATE)
     else if state = 28 then (Some anon_sym_GT,
       if lookahead = 61 \<comment> \<open>=\<close> then ADVANCE 29 else END_STATE)
     else if state = 29 then (Some anon_sym_GT_EQ, END_STATE)
     else if state = 30 then (Some anon_sym_PLUS, END_STATE)
     else if state = 31 then (Some anon_sym_DASH, END_STATE)
     else if state = 32 then (Some anon_sym_STAR, END_STATE)
     else if state = 33 then (Some anon_sym_SLASH, END_STATE)
     else if state = 34 then (Some anon_sym_QMARK, END_STATE)
     else if state = 35 then (Some anon_sym_COLON, END_STATE)
     else if state = 36 then (Some anon_sym_BANG, END_STATE)
     else if state = 37 then (Some anon_sym_BANG,
       if lookahead = 61 \<comment> \<open>=\<close> then ADVANCE 25 else END_STATE)
     else if state = 38 then (Some anon_sym_LPAREN, END_STATE)
     else if state = 39 then (Some anon_sym_RPAREN, END_STATE)
     else if state = 40 then (Some sym_number,
       if lookahead = 46 \<comment> \<open>.\<close> then ADVANCE 18
       else if 48 \<le> lookahead \<and> lookahead \<le> 57 then ADVANCE 40
       else END_STATE)
     else if state = 41 then (Some sym_number,
       if 48 \<le> lookahead \<and> lookahead \<le> 57 then ADVANCE 41 else END_STATE)
     else if state = 42 then (Some sym_string, END_STATE)
     else if state = 43 then (Some anon_sym_true, END_STATE)
     else if state = 44 then (Some anon_sym_false, END_STATE)
     else if state = 45 then (Some sym_nil, END_STATE)
     else (None, END_STATE))"

text \<open>
  At the end of the input \<^verbatim>\<open>lookahead\<close> is 0 and \<^verbatim>\<open>eof\<close> is set: the only jump
  taken there goes to state 20, which accepts \<^verbatim>\<open>ts_builtin_sym_end\<close> and stops.
\<close>

lemma ts_lex_state_eof:
  "ts_lex_state state True 0 = (a, j) \<Longrightarrow> j = END_STATE \<or> (j = ADVANCE 20 \<and> state \<noteq> 20)"
  by (auto simp: ts_lex_state_def split: if_splits)

text \<open>
  The loop that \<^verbatim>\<open>START_LEXER\<close>, \<^verbatim>\<open>ADVANCE\<close>, \<^verbatim>\<open>SKIP\<close>,
  \<^verbatim>\<open>ACCEPT_TOKEN\<close> and \<^verbatim>\<open>END_STATE\<close> of \<^verbatim>\<open>tree_sitter/parser.h\<close> build
  around the \<^verbatim>\<open>switch\<close>. The input is the list of code points from the cursor on;
  \<open>pos\<close> counts the code points consumed, \<open>tok_start\<close> is the lexer's token start
  (\<^verbatim>\<open>lexer->advance(lexer, true)\<close> moves it behind the skipped character), and
  \<open>res\<close> holds \<^verbatim>\<open>result_symbol\<close> with the position of the last
  \<^verbatim>\<open>mark_end\<close> once \<^verbatim>\<open>result\<close> is true. At the end of the input
  \<^verbatim>\<open>advance\<close> does not move. The value is the accepted symbol with the start and the
  end of the token, or \<open>None\<close> when \<^verbatim>\<open>ts_lex\<close> returns false.
\<close>

function ts_lex_run ::
  "nat \<Rightarrow> int list \<Rightarrow> nat \<Rightarrow> nat \<Rightarrow> (TSSymbol \<times> nat) option \<Rightarrow> (TSSymbol \<times> nat \<times> nat) option"
where
  "ts_lex_run state [] pos tok_start res =
    (case ts_lex_state state True 0 of (acc, jump) \<Rightarrow>
      (let res' = (case acc of Some sy \<Rightarrow> Some (sy, pos) | None \<Rightarrow> res) in
       case jump of
         END_STATE \<Rightarrow> map_option (\<lambda>(sy, e). (sy, tok_start, e)) res'
       | ADVANCE s \<Rightarrow> ts_lex_run s [] pos tok_start res'
       | SKIP s \<Rightarrow> ts_lex_run s [] pos pos res'))"
| "ts_lex_run state (c # cs) pos tok_start res =
    (case ts_lex_state state False c of (acc, jump) \<Rightarrow>
      (let res' = (case acc of Some sy \<Rightarrow> Some (sy, pos) | None \<Rightarrow> res) in
       case jump of
         END_STATE \<Rightarrow> map_option (\<lambda>(sy, e). (sy, tok_start, e)) res'
       | ADVANCE s \<Rightarrow> ts_lex_run s cs (Suc pos) tok_start res'
       | SKIP s \<Rightarrow> ts_lex_run s cs (Suc pos) (Suc pos) res'))"
  by pat_completeness auto
termination
  apply (relation "measure (\<lambda>(state, inp, pos, tok_start, res).
          2 * length inp + (if state = 20 then 0 else 1))")
      apply simp
     apply (auto dest: ts_lex_state_eof sym)
  done

definition ts_lex :: "nat \<Rightarrow> int list \<Rightarrow> (TSSymbol \<times> nat \<times> nat) option" where
  "ts_lex state inp = ts_lex_run state inp 0 0 None"

text \<open>The code points of an ASCII string, for writing inputs down.\<close>

definition codes :: "string \<Rightarrow> int list" where
  "codes s = map of_char s"

section \<open>The tables of the grammar\<close>

text \<open>
  \<^verbatim>\<open>ts_lex_modes\<close>: the \<^verbatim>\<open>lex_state\<close> of each of the \<^verbatim>\<open>STATE_COUNT\<close> = 30
  parse states, in the order of the array.
\<close>

definition STATE_COUNT :: nat where
  "STATE_COUNT = 30"

definition LARGE_STATE_COUNT :: nat where
  "LARGE_STATE_COUNT = 4"

definition ts_lex_modes :: "nat list" where
  "ts_lex_modes =
    [0, 19, 19, 19, 1, 1, 1, 1, 19, 1,
     1, 1, 1, 19, 19, 19, 19, 19, 19, 19,
     19, 19, 1, 1, 1, 1, 1, 19, 19, 0]"

text \<open>
  The macros \<^verbatim>\<open>STATE(id)\<close> and \<^verbatim>\<open>ACTIONS(id)\<close> of
  \<^verbatim>\<open>tree_sitter/parser.h\<close> both expand to \<^verbatim>\<open>id\<close>: a cell of the parse table
  is the next state under a non-terminal and an index into
  \<^verbatim>\<open>ts_parse_actions\<close> under a terminal.
\<close>

definition STATE :: "nat \<Rightarrow> nat" where
  "STATE i = i"

definition ACTIONS :: "nat \<Rightarrow> nat" where
  "ACTIONS i = i"

text \<open>
  \<^verbatim>\<open>ts_parse_table\<close>: the rows of the large states 0 to 3, each with its
  designated initialisers in the order of the source. A cell that is not listed is 0.
\<close>

definition ts_parse_table :: "nat \<Rightarrow> (TSSymbol \<times> nat) list" where
  "ts_parse_table state =
    (if state = 0 then
       [(ts_builtin_sym_end, ACTIONS 1),
        (anon_sym_SEMI, ACTIONS 1),
        (anon_sym_print, ACTIONS 1),
        (anon_sym_COMMA, ACTIONS 1),
        (anon_sym_EQ_EQ, ACTIONS 1),
        (anon_sym_BANG_EQ, ACTIONS 1),
        (anon_sym_LT, ACTIONS 1),
        (anon_sym_LT_EQ, ACTIONS 1),
        (anon_sym_GT, ACTIONS 1),
        (anon_sym_GT_EQ, ACTIONS 1),
        (anon_sym_PLUS, ACTIONS 1),
        (anon_sym_DASH, ACTIONS 1),
        (anon_sym_STAR, ACTIONS 1),
        (anon_sym_SLASH, ACTIONS 1),
        (anon_sym_QMARK, ACTIONS 1),
        (anon_sym_COLON, ACTIONS 1),
        (anon_sym_BANG, ACTIONS 1),
        (anon_sym_LPAREN, ACTIONS 1),
        (anon_sym_RPAREN, ACTIONS 1),
        (sym_number, ACTIONS 1),
        (sym_string, ACTIONS 1),
        (anon_sym_true, ACTIONS 1),
        (anon_sym_false, ACTIONS 1),
        (sym_nil, ACTIONS 1)]
     else if state = 1 then
       [(sym_program, STATE 29),
        (sym__statement, STATE 2),
        (sym_expression_statement, STATE 2),
        (sym_print_statement, STATE 2),
        (sym__expression, STATE 26),
        (sym_binary_expression, STATE 26),
        (sym_ternary_expression, STATE 26),
        (sym_unary_expression, STATE 26),
        (sym_group_expression, STATE 26),
        (sym__literal_expression, STATE 26),
        (sym_boolean, STATE 26),
        (aux_sym_program_repeat1, STATE 2),
        (ts_builtin_sym_end, ACTIONS 3),
        (anon_sym_print, ACTIONS 5),
        (anon_sym_DASH, ACTIONS 7),
        (anon_sym_BANG, ACTIONS 7),
        (anon_sym_LPAREN, ACTIONS 9),
        (sym_number, ACTIONS 11),
        (sym_string, ACTIONS 11),
        (anon_sym_true, ACTIONS 13),
        (anon_sym_false, ACTIONS 13),
        (sym_nil, ACTIONS 11)]
     else if state = 2 then
       [(sym__statement, STATE 3),
        (sym_expression_statement, STATE 3),
        (sym_print_statement, STATE 3),
        (sym__expression, STATE 26),
        (sym_binary_expression, STATE 26),
        (sym_ternary_expression, STATE 26),
        (sym_unary_expression, STATE 26),
        (sym_group_expression, STATE 26),
        (sym__literal_expression, STATE 26),
        (sym_boolean, STATE 26),
        (aux_sym_program_repeat1, STATE 3),
        (ts_builtin_sym_end, ACTIONS 15),
        (anon_sym_print, ACTIONS 5),
        (anon_sym_DASH, ACTIONS 7),
        (anon_sym_BANG, ACTIONS 7),
        (anon_sym_LPAREN, ACTIONS 9),
        (sym_number, ACTIONS 11),
        (sym_string, ACTIONS 11),
        (anon_sym_true, ACTIONS 13),
        (anon_sym_false, ACTIONS 13),
        (sym_nil, ACTIONS 11)]
     else if state = 3 then
       [(sym__statement, STATE 3),
        (sym_expression_statement, STATE 3),
        (sym_print_statement, STATE 3),
        (sym__expression, STATE 26),
        (sym_binary_expression, STATE 26),
        (sym_ternary_expression, STATE 26),
        (sym_unary_expression, STATE 26),
        (sym_group_expression, STATE 26),
        (sym__literal_expression, STATE 26),
        (sym_boolean, STATE 26),
        (aux_sym_program_repeat1, STATE 3),
        (ts_builtin_sym_end, ACTIONS 17),
        (anon_sym_print, ACTIONS 19),
        (anon_sym_DASH, ACTIONS 22),
        (anon_sym_BANG, ACTIONS 22),
        (anon_sym_LPAREN, ACTIONS 25),
        (sym_number, ACTIONS 28),
        (sym_string, ACTIONS 28),
        (anon_sym_true, ACTIONS 31),
        (anon_sym_false, ACTIONS 31),
        (sym_nil, ACTIONS 28)]
     else [])"

text \<open>
  The seven non-terminals that stand for an expression always share one cell value in the
  small table; the source lists them in this order.
\<close>

definition expression_symbols :: "TSSymbol list" where
  "expression_symbols =
    [sym__expression, sym_binary_expression, sym_ternary_expression, sym_unary_expression,
     sym_group_expression, sym__literal_expression, sym_boolean]"

text \<open>
  \<^verbatim>\<open>ts_small_parse_table\<close>: the row that starts at each index. A row is a list of
  groups, each a cell value with the symbols that have it; the group count and each
  group's symbol count, which the array stores in front, are the lengths of the lists.
\<close>

definition ts_small_parse_table :: "nat \<Rightarrow> (nat \<times> TSSymbol list) list" where
  "ts_small_parse_table index =
    (if index = 0 then
       [(ACTIONS 36, [anon_sym_LT, anon_sym_GT]),
        (ACTIONS 34, [anon_sym_SEMI, anon_sym_COMMA, anon_sym_EQ_EQ, anon_sym_BANG_EQ,
           anon_sym_LT_EQ, anon_sym_GT_EQ, anon_sym_PLUS, anon_sym_DASH, anon_sym_STAR,
           anon_sym_SLASH, anon_sym_QMARK, anon_sym_COLON, anon_sym_RPAREN])]
     else if index = 20 then
       [(ACTIONS 40, [anon_sym_LT, anon_sym_GT]),
        (ACTIONS 42, [anon_sym_LT_EQ, anon_sym_GT_EQ]),
        (ACTIONS 44, [anon_sym_PLUS, anon_sym_DASH]),
        (ACTIONS 46, [anon_sym_STAR, anon_sym_SLASH]),
        (ACTIONS 38, [anon_sym_SEMI, anon_sym_COMMA, anon_sym_EQ_EQ, anon_sym_BANG_EQ,
           anon_sym_QMARK, anon_sym_COLON, anon_sym_RPAREN])]
     else if index = 46 then
       [(ACTIONS 50, [anon_sym_LT, anon_sym_GT]),
        (ACTIONS 48, [anon_sym_SEMI, anon_sym_COMMA, anon_sym_EQ_EQ, anon_sym_BANG_EQ,
           anon_sym_LT_EQ, anon_sym_GT_EQ, anon_sym_PLUS, anon_sym_DASH, anon_sym_STAR,
           anon_sym_SLASH, anon_sym_QMARK, anon_sym_COLON, anon_sym_RPAREN])]
     else if index = 66 then
       [(ACTIONS 56, [anon_sym_QMARK]),
        (ACTIONS 40, [anon_sym_LT, anon_sym_GT]),
        (ACTIONS 42, [anon_sym_LT_EQ, anon_sym_GT_EQ]),
        (ACTIONS 44, [anon_sym_PLUS, anon_sym_DASH]),
        (ACTIONS 46, [anon_sym_STAR, anon_sym_SLASH]),
        (ACTIONS 54, [anon_sym_EQ_EQ, anon_sym_BANG_EQ]),
        (ACTIONS 52, [anon_sym_SEMI, anon_sym_COMMA, anon_sym_COLON, anon_sym_RPAREN])]
     else if index = 96 then
       [(ACTIONS 9, [anon_sym_LPAREN]),
        (ACTIONS 7, [anon_sym_DASH, anon_sym_BANG]),
        (ACTIONS 13, [anon_sym_true, anon_sym_false]),
        (ACTIONS 58, [sym_number, sym_string, sym_nil]),
        (STATE 7, expression_symbols)]
     else if index = 122 then
       [(ACTIONS 60, [anon_sym_LT, anon_sym_GT]),
        (ACTIONS 38, [anon_sym_SEMI, anon_sym_COMMA, anon_sym_EQ_EQ, anon_sym_BANG_EQ,
           anon_sym_LT_EQ, anon_sym_GT_EQ, anon_sym_PLUS, anon_sym_DASH, anon_sym_STAR,
           anon_sym_SLASH, anon_sym_QMARK, anon_sym_COLON, anon_sym_RPAREN])]
     else if index = 142 then
       [(ACTIONS 64, [anon_sym_LT, anon_sym_GT]),
        (ACTIONS 62, [anon_sym_SEMI, anon_sym_COMMA, anon_sym_EQ_EQ, anon_sym_BANG_EQ,
           anon_sym_LT_EQ, anon_sym_GT_EQ, anon_sym_PLUS, anon_sym_DASH, anon_sym_STAR,
           anon_sym_SLASH, anon_sym_QMARK, anon_sym_COLON, anon_sym_RPAREN])]
     else if index = 162 then
       [(ACTIONS 46, [anon_sym_STAR, anon_sym_SLASH]),
        (ACTIONS 60, [anon_sym_LT, anon_sym_GT]),
        (ACTIONS 38, [anon_sym_SEMI, anon_sym_COMMA, anon_sym_EQ_EQ, anon_sym_BANG_EQ,
           anon_sym_LT_EQ, anon_sym_GT_EQ, anon_sym_PLUS, anon_sym_DASH, anon_sym_QMARK,
           anon_sym_COLON, anon_sym_RPAREN])]
     else if index = 184 then
       [(ACTIONS 44, [anon_sym_PLUS, anon_sym_DASH]),
        (ACTIONS 46, [anon_sym_STAR, anon_sym_SLASH]),
        (ACTIONS 60, [anon_sym_LT, anon_sym_GT]),
        (ACTIONS 38, [anon_sym_SEMI, anon_sym_COMMA, anon_sym_EQ_EQ, anon_sym_BANG_EQ,
           anon_sym_LT_EQ, anon_sym_GT_EQ, anon_sym_QMARK, anon_sym_COLON, anon_sym_RPAREN])]
     else if index = 208 then
       [(ACTIONS 9, [anon_sym_LPAREN]),
        (ACTIONS 7, [anon_sym_DASH, anon_sym_BANG]),
        (ACTIONS 13, [anon_sym_true, anon_sym_false]),
        (ACTIONS 66, [sym_number, sym_string, sym_nil]),
        (STATE 22, expression_symbols)]
     else if index = 234 then
       [(ACTIONS 9, [anon_sym_LPAREN]),
        (ACTIONS 7, [anon_sym_DASH, anon_sym_BANG]),
        (ACTIONS 13, [anon_sym_true, anon_sym_false]),
        (ACTIONS 68, [sym_number, sym_string, sym_nil]),
        (STATE 5, expression_symbols)]
     else if index = 260 then
       [(ACTIONS 9, [anon_sym_LPAREN]),
        (ACTIONS 7, [anon_sym_DASH, anon_sym_BANG]),
        (ACTIONS 13, [anon_sym_true, anon_sym_false]),
        (ACTIONS 70, [sym_number, sym_string, sym_nil]),
        (STATE 12, expression_symbols)]
     else if index = 286 then
       [(ACTIONS 9, [anon_sym_LPAREN]),
        (ACTIONS 7, [anon_sym_DASH, anon_sym_BANG]),
        (ACTIONS 13, [anon_sym_true, anon_sym_false]),
        (ACTIONS 72, [sym_number, sym_string, sym_nil]),
        (STATE 11, expression_symbols)]
     else if index = 312 then
       [(ACTIONS 9, [anon_sym_LPAREN]),
        (ACTIONS 7, [anon_sym_DASH, anon_sym_BANG]),
        (ACTIONS 13, [anon_sym_true, anon_sym_false]),
        (ACTIONS 74, [sym_number, sym_string, sym_nil]),
        (STATE 9, expression_symbols)]
     else if index = 338 then
       [(ACTIONS 9, [anon_sym_LPAREN]),
        (ACTIONS 7, [anon_sym_DASH, anon_sym_BANG]),
        (ACTIONS 13, [anon_sym_true, anon_sym_false]),
        (ACTIONS 76, [sym_number, sym_string, sym_nil]),
        (STATE 25, expression_symbols)]
     else if index = 364 then
       [(ACTIONS 9, [anon_sym_LPAREN]),
        (ACTIONS 7, [anon_sym_DASH, anon_sym_BANG]),
        (ACTIONS 13, [anon_sym_true, anon_sym_false]),
        (ACTIONS 78, [sym_number, sym_string, sym_nil]),
        (STATE 24, expression_symbols)]
     else if index = 390 then
       [(ACTIONS 9, [anon_sym_LPAREN]),
        (ACTIONS 7, [anon_sym_DASH, anon_sym_BANG]),
        (ACTIONS 13, [anon_sym_true, anon_sym_false]),
        (ACTIONS 80, [sym_number, sym_string, sym_nil]),
        (STATE 23, expression_symbols)]
     else if index = 416 then
       [(ACTIONS 9, [anon_sym_LPAREN]),
        (ACTIONS 7, [anon_sym_DASH, anon_sym_BANG]),
        (ACTIONS 13, [anon_sym_true, anon_sym_false]),
        (ACTIONS 82, [sym_number, sym_string, sym_nil]),
        (STATE 10, expression_symbols)]
     else if index = 442 then
       [(ACTIONS 56, [anon_sym_QMARK]),
        (ACTIONS 40, [anon_sym_LT, anon_sym_GT]),
        (ACTIONS 42, [anon_sym_LT_EQ, anon_sym_GT_EQ]),
        (ACTIONS 44, [anon_sym_PLUS, anon_sym_DASH]),
        (ACTIONS 46, [anon_sym_STAR, anon_sym_SLASH]),
        (ACTIONS 54, [anon_sym_EQ_EQ, anon_sym_BANG_EQ]),
        (ACTIONS 38, [anon_sym_SEMI, anon_sym_COMMA, anon_sym_COLON, anon_sym_RPAREN])]
     else if index = 472 then
       [(ACTIONS 56, [anon_sym_QMARK]),
        (ACTIONS 84, [anon_sym_COMMA]),
        (ACTIONS 86, [anon_sym_RPAREN]),
        (ACTIONS 40, [anon_sym_LT, anon_sym_GT]),
        (ACTIONS 42, [anon_sym_LT_EQ, anon_sym_GT_EQ]),
        (ACTIONS 44, [anon_sym_PLUS, anon_sym_DASH]),
        (ACTIONS 46, [anon_sym_STAR, anon_sym_SLASH]),
        (ACTIONS 54, [anon_sym_EQ_EQ, anon_sym_BANG_EQ])]
     else if index = 502 then
       [(ACTIONS 56, [anon_sym_QMARK]),
        (ACTIONS 84, [anon_sym_COMMA]),
        (ACTIONS 88, [anon_sym_SEMI]),
        (ACTIONS 40, [anon_sym_LT, anon_sym_GT]),
        (ACTIONS 42, [anon_sym_LT_EQ, anon_sym_GT_EQ]),
        (ACTIONS 44, [anon_sym_PLUS, anon_sym_DASH]),
        (ACTIONS 46, [anon_sym_STAR, anon_sym_SLASH]),
        (ACTIONS 54, [anon_sym_EQ_EQ, anon_sym_BANG_EQ])]
     else if index = 532 then
       [(ACTIONS 56, [anon_sym_QMARK]),
        (ACTIONS 84, [anon_sym_COMMA]),
        (ACTIONS 90, [anon_sym_COLON]),
        (ACTIONS 40, [anon_sym_LT, anon_sym_GT]),
        (ACTIONS 42, [anon_sym_LT_EQ, anon_sym_GT_EQ]),
        (ACTIONS 44, [anon_sym_PLUS, anon_sym_DASH]),
        (ACTIONS 46, [anon_sym_STAR, anon_sym_SLASH]),
        (ACTIONS 54, [anon_sym_EQ_EQ, anon_sym_BANG_EQ])]
     else if index = 562 then
       [(ACTIONS 56, [anon_sym_QMARK]),
        (ACTIONS 84, [anon_sym_COMMA]),
        (ACTIONS 92, [anon_sym_SEMI]),
        (ACTIONS 40, [anon_sym_LT, anon_sym_GT]),
        (ACTIONS 42, [anon_sym_LT_EQ, anon_sym_GT_EQ]),
        (ACTIONS 44, [anon_sym_PLUS, anon_sym_DASH]),
        (ACTIONS 46, [anon_sym_STAR, anon_sym_SLASH]),
        (ACTIONS 54, [anon_sym_EQ_EQ, anon_sym_BANG_EQ])]
     else if index = 592 then
       [(ACTIONS 94, [ts_builtin_sym_end, anon_sym_print, anon_sym_DASH, anon_sym_BANG,
           anon_sym_LPAREN, sym_number, sym_string, anon_sym_true, anon_sym_false, sym_nil])]
     else if index = 605 then
       [(ACTIONS 96, [ts_builtin_sym_end, anon_sym_print, anon_sym_DASH, anon_sym_BANG,
           anon_sym_LPAREN, sym_number, sym_string, anon_sym_true, anon_sym_false, sym_nil])]
     else if index = 618 then
       [(ACTIONS 98, [ts_builtin_sym_end])]
     else [])"

text \<open>
  \<^verbatim>\<open>ts_small_parse_table_map\<close>, indexed by \<^verbatim>\<open>SMALL_STATE(id)\<close>, which is
  \<^verbatim>\<open>id - LARGE_STATE_COUNT\<close>: the entries of the states 4 to 29.
\<close>

definition ts_small_parse_table_map :: "nat list" where
  "ts_small_parse_table_map =
    [0, 20, 46, 66, 96, 122, 142, 162, 184, 208, 234, 260, 286,
     312, 338, 364, 390, 416, 442, 472, 502, 532, 562, 592, 605, 618]"

text \<open>
  \<^verbatim>\<open>TSParseAction\<close>, as the macros of \<^verbatim>\<open>tree_sitter/parser.h\<close> build it:
  \<^verbatim>\<open>SHIFT(state)\<close>, \<^verbatim>\<open>SHIFT_REPEAT(state)\<close> (a shift with
  \<^verbatim>\<open>.repetition = true\<close>), \<^verbatim>\<open>REDUCE(symbol, child_count, ...)\<close> with its
  \<^verbatim>\<open>production_id\<close> (0 where the source gives none: the field of the designated
  initialiser stays zero), \<^verbatim>\<open>RECOVER()\<close> and \<^verbatim>\<open>ACCEPT_INPUT()\<close>.
\<close>

datatype TSParseAction =
    SHIFT TSStateId
  | SHIFT_REPEAT TSStateId
  | REDUCE TSSymbol nat nat
  | RECOVER
  | ACCEPT_INPUT

text \<open>
  \<^verbatim>\<open>ts_parse_actions\<close>: the entry that starts at each index, as its
  \<^verbatim>\<open>reusable\<close> flag and its actions (\<^verbatim>\<open>count\<close> is their number).
\<close>

definition ts_parse_actions :: "nat \<Rightarrow> bool \<times> TSParseAction list" where
  "ts_parse_actions i =
    (if i = 0 then (False, [])
     else if i = 1 then (False, [RECOVER])
     else if i = 3 then (True, [REDUCE sym_program 0 0])
     else if i = 5 then (True, [SHIFT 19])
     else if i = 7 then (True, [SHIFT 21])
     else if i = 9 then (True, [SHIFT 20])
     else if i = 11 then (True, [SHIFT 26])
     else if i = 13 then (True, [SHIFT 6])
     else if i = 15 then (True, [REDUCE sym_program 1 0])
     else if i = 17 then (True, [REDUCE aux_sym_program_repeat1 2 0])
     else if i = 19 then (True, [REDUCE aux_sym_program_repeat1 2 0, SHIFT_REPEAT 19])
     else if i = 22 then (True, [REDUCE aux_sym_program_repeat1 2 0, SHIFT_REPEAT 21])
     else if i = 25 then (True, [REDUCE aux_sym_program_repeat1 2 0, SHIFT_REPEAT 20])
     else if i = 28 then (True, [REDUCE aux_sym_program_repeat1 2 0, SHIFT_REPEAT 26])
     else if i = 31 then (True, [REDUCE aux_sym_program_repeat1 2 0, SHIFT_REPEAT 6])
     else if i = 34 then (True, [REDUCE sym_group_expression 3 2])
     else if i = 36 then (False, [REDUCE sym_group_expression 3 2])
     else if i = 38 then (True, [REDUCE sym_binary_expression 3 3])
     else if i = 40 then (False, [SHIFT 15])
     else if i = 42 then (True, [SHIFT 15])
     else if i = 44 then (True, [SHIFT 16])
     else if i = 46 then (True, [SHIFT 17])
     else if i = 48 then (True, [REDUCE sym_boolean 1 0])
     else if i = 50 then (False, [REDUCE sym_boolean 1 0])
     else if i = 52 then (True, [REDUCE sym_ternary_expression 5 4])
     else if i = 54 then (True, [SHIFT 14])
     else if i = 56 then (True, [SHIFT 18])
     else if i = 58 then (True, [SHIFT 7])
     else if i = 60 then (False, [REDUCE sym_binary_expression 3 3])
     else if i = 62 then (True, [REDUCE sym_unary_expression 2 1])
     else if i = 64 then (False, [REDUCE sym_unary_expression 2 1])
     else if i = 66 then (True, [SHIFT 22])
     else if i = 68 then (True, [SHIFT 5])
     else if i = 70 then (True, [SHIFT 12])
     else if i = 72 then (True, [SHIFT 11])
     else if i = 74 then (True, [SHIFT 9])
     else if i = 76 then (True, [SHIFT 25])
     else if i = 78 then (True, [SHIFT 24])
     else if i = 80 then (True, [SHIFT 23])
     else if i = 82 then (True, [SHIFT 10])
     else if i = 84 then (True, [SHIFT 13])
     else if i = 86 then (True, [SHIFT 4])
     else if i = 88 then (True, [SHIFT 27])
     else if i = 90 then (True, [SHIFT 8])
     else if i = 92 then (True, [SHIFT 28])
     else if i = 94 then (True, [REDUCE sym_print_statement 3 0])
     else if i = 96 then (True, [REDUCE sym_expression_statement 2 0])
     else if i = 98 then (True, [ACCEPT_INPUT])
     else (False, []))"

text \<open>The \<^verbatim>\<open>enum\<close> of field ids, values 1 to 6, and \<^verbatim>\<open>ts_field_names\<close>.\<close>

datatype TSFieldId =
    field_condition
  | field_else
  | field_expression
  | field_left
  | field_right
  | field_then

fun ts_field_names :: "TSFieldId \<Rightarrow> string" where
  "ts_field_names field_condition = ''condition''"
| "ts_field_names field_else = ''else''"
| "ts_field_names field_expression = ''expression''"
| "ts_field_names field_left = ''left''"
| "ts_field_names field_right = ''right''"
| "ts_field_names field_then = ''then''"

text \<open>
  \<^verbatim>\<open>ts_field_map_slices\<close>, indexed by production id 0 to 4, as (index, length);
  the slice of production 0 is not initialised in the source and so is all zero.
  \<^verbatim>\<open>ts_field_map_entries\<close>, indexed 0 to 6, as (field id, child index).
\<close>

definition PRODUCTION_ID_COUNT :: nat where
  "PRODUCTION_ID_COUNT = 5"

definition ts_field_map_slices :: "(nat \<times> nat) list" where
  "ts_field_map_slices = [(0, 0), (0, 1), (1, 1), (2, 2), (4, 3)]"

definition ts_field_map_entries :: "(TSFieldId \<times> nat) list" where
  "ts_field_map_entries =
    [(field_right, 1),
     (field_expression, 1),
     (field_left, 0),
     (field_right, 2),
     (field_condition, 0),
     (field_else, 4),
     (field_then, 2)]"

text \<open>\<^verbatim>\<open>ts_symbol_metadata\<close>: the \<^verbatim>\<open>visible\<close> and \<^verbatim>\<open>named\<close> flags.\<close>

fun ts_symbol_visible :: "TSSymbol \<Rightarrow> bool" where
  "ts_symbol_visible ts_builtin_sym_end = False"
| "ts_symbol_visible sym__statement = False"
| "ts_symbol_visible sym__expression = False"
| "ts_symbol_visible sym__literal_expression = False"
| "ts_symbol_visible aux_sym_program_repeat1 = False"
| "ts_symbol_visible _ = True"

fun ts_symbol_named :: "TSSymbol \<Rightarrow> bool" where
  "ts_symbol_named ts_builtin_sym_end = True"
| "ts_symbol_named sym_number = True"
| "ts_symbol_named sym_string = True"
| "ts_symbol_named sym_nil = True"
| "ts_symbol_named sym_program = True"
| "ts_symbol_named sym__statement = True"
| "ts_symbol_named sym_expression_statement = True"
| "ts_symbol_named sym_print_statement = True"
| "ts_symbol_named sym__expression = True"
| "ts_symbol_named sym_binary_expression = True"
| "ts_symbol_named sym_ternary_expression = True"
| "ts_symbol_named sym_unary_expression = True"
| "ts_symbol_named sym_group_expression = True"
| "ts_symbol_named sym__literal_expression = True"
| "ts_symbol_named sym_boolean = True"
| "ts_symbol_named ts_builtin_sym_error = True"
| "ts_symbol_named _ = False"

text \<open>
  \<^verbatim>\<open>TOKEN_COUNT\<close> is 24: the symbols with the values 0 to 23 are the terminals.
\<close>

definition terminals :: "TSSymbol list" where
  "terminals =
    [ts_builtin_sym_end, anon_sym_SEMI, anon_sym_print, anon_sym_COMMA, anon_sym_EQ_EQ,
     anon_sym_BANG_EQ, anon_sym_LT, anon_sym_LT_EQ, anon_sym_GT, anon_sym_GT_EQ,
     anon_sym_PLUS, anon_sym_DASH, anon_sym_STAR, anon_sym_SLASH, anon_sym_QMARK,
     anon_sym_COLON, anon_sym_BANG, anon_sym_LPAREN, anon_sym_RPAREN, sym_number,
     sym_string, anon_sym_true, anon_sym_false, sym_nil]"

section \<open>Reading the tables\<close>

text \<open>
  Modelled from the spec: the table lookup of the engine (section 6: a two-tier action
  table, a few fully enumerated states plus compact per-state lists found through a
  state-to-offset index, a cell that is not listed being empty). The engine that reads
  the tables is not part of \<^verbatim>\<open>parser.c\<close>. A row of the small table is searched
  group by group for the symbol; a miss is the cell 0, whose action entry is empty.
\<close>

fun small_row_lookup :: "(nat \<times> TSSymbol list) list \<Rightarrow> TSSymbol \<Rightarrow> nat" where
  "small_row_lookup [] symbol = 0"
| "small_row_lookup ((section_value, symbols) # groups) symbol =
    (if symbol \<in> set symbols then section_value else small_row_lookup groups symbol)"

definition ts_language_lookup :: "TSStateId \<Rightarrow> TSSymbol \<Rightarrow> nat" where
  "ts_language_lookup state symbol =
    (if state \<ge> LARGE_STATE_COUNT then
       (if state < STATE_COUNT then
          small_row_lookup
            (ts_small_parse_table (ts_small_parse_table_map ! (state - LARGE_STATE_COUNT)))
            symbol
        else 0)
     else
       (case map_of (ts_parse_table state) symbol of Some v \<Rightarrow> v | None \<Rightarrow> 0))"

definition ts_language_actions :: "TSStateId \<Rightarrow> TSSymbol \<Rightarrow> TSParseAction list" where
  "ts_language_actions state symbol = snd (ts_parse_actions (ts_language_lookup state symbol))"

definition ts_language_next_state :: "TSStateId \<Rightarrow> TSSymbol \<Rightarrow> TSStateId" where
  "ts_language_next_state state symbol = ts_language_lookup state symbol"

text \<open>
  Modelled from the spec: the field map of a production (section 3: a mapping from field
  name to child position) is the slice of \<^verbatim>\<open>ts_field_map_entries\<close> that
  \<^verbatim>\<open>ts_field_map_slices\<close> gives for the production id; a production id outside the
  table has no fields.
\<close>

definition ts_language_field_map :: "nat \<Rightarrow> (TSFieldId \<times> nat) list" where
  "ts_language_field_map production_id =
    (if production_id < PRODUCTION_ID_COUNT then
       (case ts_field_map_slices ! production_id of
          (index, len) \<Rightarrow> take len (drop index ts_field_map_entries))
     else [])"

section \<open>The engine that runs the tables\<close>

text \<open>
  \<^verbatim>\<open>parser.c\<close> holds the lexer and the tables; the engine that runs them (the
  runtime behind \<^verbatim>\<open>tree_sitter/parser.h\<close>) is not part of it. This section models
  the engine from sections 3 and 4 of the specification, over the lexer and the tables
  above.
\<close>

subsection \<open>Nodes\<close>

text \<open>
  Modelled from the spec: the data model of section 3. A token has a kind and a start and
  end offset; a node has a kind, a byte range, its children (tokens or nodes) in order, and
  the field map of its production, from field to child position.
\<close>

datatype node =
    Token TSSymbol nat nat
  | Node TSSymbol nat nat "node list" "(TSFieldId \<times> nat) list"

fun node_kind :: "node \<Rightarrow> TSSymbol" where
  "node_kind (Token kind s e) = kind"
| "node_kind (Node kind s e cs fields) = kind"

fun start_byte :: "node \<Rightarrow> nat" where
  "start_byte (Token kind s e) = s"
| "start_byte (Node kind s e cs fields) = s"

fun end_byte :: "node \<Rightarrow> nat" where
  "end_byte (Token kind s e) = e"
| "end_byte (Node kind s e cs fields) = e"

fun children :: "node \<Rightarrow> node list" where
  "children (Token kind s e) = []"
| "children (Node kind s e cs fields) = cs"

text \<open>The tokens of a node, in tree order.\<close>

fun tokens_of :: "node \<Rightarrow> node list" where
  "tokens_of (Token kind s e) = [Token kind s e]"
| "tokens_of (Node kind s e cs fields) = concat (map tokens_of cs)"

text \<open>
  Modelled from the spec: field lookup (sections 3 and 4.4). A field is resolved by
  position through the node's field map; a field that the map does not have gives no
  child. Lookup by name goes through \<^verbatim>\<open>ts_field_names\<close>.
\<close>

fun child_by_field_id :: "node \<Rightarrow> TSFieldId \<Rightarrow> node option" where
  "child_by_field_id (Token kind s e) field = None"
| "child_by_field_id (Node kind s e cs fields) field =
    (case map_of fields field of
       None \<Rightarrow> None
     | Some i \<Rightarrow> if i < length cs then Some (cs ! i) else None)"

definition field_ids :: "TSFieldId list" where
  "field_ids =
    [field_condition, field_else, field_expression, field_left, field_right, field_then]"

definition child_by_field_name :: "node \<Rightarrow> string \<Rightarrow> node option" where
  "child_by_field_name n name =
    (case filter (\<lambda>f. ts_field_names f = name) field_ids of
       [] \<Rightarrow> None
     | f # _ \<Rightarrow> child_by_field_id n f)"

subsection \<open>Tokenizer\<close>

text \<open>
  Modelled from the spec: \<^verbatim>\<open>next_token(buffer, offset, mode)\<close> of section 4.1. It
  runs \<^verbatim>\<open>ts_lex\<close> from the offset with the mode as the start state of the automaton;
  \<open>None\<close> is the spec's NoMatch.
\<close>

definition next_token :: "int list \<Rightarrow> nat \<Rightarrow> nat \<Rightarrow> (TSSymbol \<times> nat \<times> nat) option" where
  "next_token buffer offset mode =
    map_option (\<lambda>(kind, s, e). (kind, offset + s, offset + e)) (ts_lex mode (drop offset buffer))"

subsection \<open>Tree builder\<close>

text \<open>
  Modelled from the spec: the tree builder of section 4.4, a function of the production
  and the popped children. The range runs from the first child's start to the last child's
  end, and is the empty range at the current offset when there are no children; the
  fields are those of the production's field map. A child whose kind is not visible (in
  this grammar the repetition helper \<^verbatim>\<open>aux_sym_program_repeat1\<close>) is replaced by
  its own children, which flattens the repetition (section 4.3).
\<close>

fun flatten_hidden :: "node \<Rightarrow> node list" where
  "flatten_hidden (Token kind s e) = [Token kind s e]"
| "flatten_hidden (Node kind s e cs fields) =
    (if ts_symbol_visible kind then [Node kind s e cs fields] else cs)"

definition tree_builder :: "TSSymbol \<Rightarrow> nat \<Rightarrow> node list \<Rightarrow> nat \<Rightarrow> node" where
  "tree_builder symbol production_id popped offset =
    (let cs = concat (map flatten_hidden popped) in
     Node symbol
       (if cs = [] then offset else start_byte (hd cs))
       (if cs = [] then offset else end_byte (last cs))
       cs
       (ts_language_field_map production_id))"

subsection \<open>Parser state\<close>

text \<open>
  Modelled from the spec: the parse stack of section 4.3, a list of (state, node) pairs
  with the top first, over a start state that carries no node. The start state is state 1,
  the state whose row sends \<^verbatim>\<open>sym_program\<close> to the accepting state 29 (state 0
  holds only \<^verbatim>\<open>RECOVER\<close> entries). \<open>position\<close> is the offset behind the
  consumed input and \<open>lookahead_token\<close> the token that has been read but not yet
  shifted.
\<close>

record parser =
  stack :: "(TSStateId \<times> node) list"
  position :: nat
  lookahead_token :: "(TSSymbol \<times> nat \<times> nat) option"

definition start_state :: TSStateId where
  "start_state = 1"

fun top_state :: "(TSStateId \<times> node) list \<Rightarrow> TSStateId" where
  "top_state [] = start_state"
| "top_state ((state, n) # below) = state"

subsection \<open>Error recovery\<close>

text \<open>
  Modelled from the spec: the error recovery of section 4.5. A state is at a statement
  boundary when a statement may start in it, that is, when its row has a cell for
  \<^verbatim>\<open>sym__statement\<close>.
\<close>

definition at_statement_boundary :: "TSStateId \<Rightarrow> bool" where
  "at_statement_boundary state \<longleftrightarrow> ts_language_next_state state sym__statement \<noteq> 0"

definition is_space :: "int \<Rightarrow> bool" where
  "is_space c \<longleftrightarrow> c = 9 \<or> c = 10 \<or> c = 13 \<or> c = 32"

text \<open>
  Modelled from the spec: the resynchronisation of section 4.5. The token stream is
  advanced, in the lexical mode of state 0 (the mode that knows every token; the row of
  state 0 answers every token with \<^verbatim>\<open>RECOVER\<close>), until a synchronising token is
  found: a \<^verbatim>\<open>;\<close>, which is consumed, or the end of the input, which is not. On a
  lex error (section 4.1) the offending code point, the first one that is not whitespace,
  is reported as a token of the error kind, one code point long, and scanning resumes one
  behind it; so the error node keeps every code point that was passed, which is the byte
  coverage that section 4.5 promises for malformed input. The value is the list of the
  tokens passed, with the offset reached.
\<close>

function synchronize :: "int list \<Rightarrow> nat \<Rightarrow> node list \<Rightarrow> node list \<times> nat" where
  "synchronize buffer offset passed =
    (case next_token buffer offset (ts_lex_modes ! 0) of
       Some (kind, s, e) \<Rightarrow>
         if kind = ts_builtin_sym_end then (passed, offset)
         else if kind = anon_sym_SEMI then (passed @ [Token kind s e], e)
         else if offset < e \<and> e \<le> length buffer
           then synchronize buffer e (passed @ [Token kind s e])
         else (passed, offset)
     | None \<Rightarrow>
         if offset < length buffer
           then (let at = offset + length (takeWhile is_space (drop offset buffer))
                 in synchronize buffer (Suc at)
                      (passed @ [Token ts_builtin_sym_error at (Suc at)]))
         else (passed, offset))"
  by pat_completeness auto
termination
  by (relation "measure (\<lambda>(buffer, offset, passed). length buffer - offset)") auto

text \<open>
  Modelled from the spec: section 4.5. On an error the engine pops the stack back to the
  last statement boundary, wraps the tokens consumed since then, together with the tokens
  passed while resynchronising, in an error node, and pushes that node as a completed
  statement.
\<close>

definition error_recovery :: "int list \<Rightarrow> parser \<Rightarrow> parser" where
  "error_recovery buffer p =
    (let above = takeWhile (\<lambda>(state, n). \<not> at_statement_boundary state) (stack p);
         base = dropWhile (\<lambda>(state, n). \<not> at_statement_boundary state) (stack p);
         consumed = concat (map (\<lambda>(state, n). tokens_of n) (rev above))
     in case synchronize buffer (position p) consumed of (wrapped, offset') \<Rightarrow>
       \<lparr>stack =
          (ts_language_next_state (top_state base) sym__statement,
           Node ts_builtin_sym_error
             (if wrapped = [] then position p else start_byte (hd wrapped))
             (if wrapped = [] then position p else end_byte (last wrapped))
             wrapped []) # base,
        position = offset',
        lookahead_token = None\<rparr>)"

subsection \<open>The shift-reduce loop\<close>

text \<open>
  Modelled from the spec: one round of the loop of section 4.3. The lookahead is the
  token kept from the last round, or else the next token in the lexical mode of the top
  state. The action is the first one of the table entry for the top state and the token
  kind (the entries of state 3 list a second action, \<^verbatim>\<open>SHIFT_REPEAT\<close>, behind the
  reduce of the repetition). A shift pushes the token and moves the offset behind it; a
  reduce pops the children, builds the node, pushes it with the state that the table gives
  for the uncovered state and the reduced symbol, and keeps the lookahead; accept returns
  the node on top of the stack. No token, no action or \<^verbatim>\<open>RECOVER\<close> is an error and
  goes to error recovery. \<open>Inr\<close> is the accepted root, \<open>Inl\<close> the parser state to
  go on with.
\<close>

definition engine_step :: "int list \<Rightarrow> parser \<Rightarrow> parser + node" where
  "engine_step buffer p =
    (let state = top_state (stack p) in
     case (case lookahead_token p of
             Some t \<Rightarrow> Some t
           | None \<Rightarrow> next_token buffer (position p) (ts_lex_modes ! state)) of
       None \<Rightarrow> Inl (error_recovery buffer p)
     | Some (kind, s, e) \<Rightarrow>
        (case ts_language_actions state kind of
           SHIFT state' # _ \<Rightarrow>
             Inl \<lparr>stack = (state', Token kind s e) # stack p, position = e, lookahead_token = None\<rparr>
         | REDUCE symbol child_count production_id # _ \<Rightarrow>
             (let popped = rev (map snd (take child_count (stack p)));
                  below = drop child_count (stack p);
                  n = tree_builder symbol production_id popped (position p)
              in Inl \<lparr>stack = (ts_language_next_state (top_state below) symbol, n) # below,
                      position = position p,
                      lookahead_token = Some (kind, s, e)\<rparr>)
         | ACCEPT_INPUT # _ \<Rightarrow>
             (case stack p of
                (state', root) # _ \<Rightarrow> Inr root
              | [] \<Rightarrow> Inl (error_recovery buffer p))
         | _ \<Rightarrow> Inl (error_recovery buffer p)))"

text \<open>
  Modelled from the spec: the loop of section 4.3, repeated until accept. The loop is a
  partial function: that it returns a tree for every input is a theorem, not part of the
  definition.
\<close>

partial_function (option) engine_loop :: "int list \<Rightarrow> parser \<Rightarrow> node option" where
  "engine_loop buffer p =
    (case engine_step buffer p of
       Inl p' \<Rightarrow> engine_loop buffer p'
     | Inr root \<Rightarrow> Some root)"

declare engine_loop.simps [code]

definition parse :: "int list \<Rightarrow> node option" where
  "parse buffer = engine_loop buffer \<lparr>stack = [], position = 0, lookahead_token = None\<rparr>"

text \<open>A tree has an error node when recovery took part in building it.\<close>

fun has_error :: "node \<Rightarrow> bool" where
  "has_error (Token kind s e) = (kind = ts_builtin_sym_error)"
| "has_error (Node kind s e cs field_map) =
    (kind = ts_builtin_sym_error \<or> (\<exists>c \<in> set cs. has_error c))"

section \<open>Vocabulary of the properties\<close>

definition is_digit :: "int \<Rightarrow> bool" where
  "is_digit c \<longleftrightarrow> 48 \<le> c \<and> c \<le> 57"

fun starts_with :: "(int \<Rightarrow> bool) \<Rightarrow> int list \<Rightarrow> bool" where
  "starts_with P [] = False"
| "starts_with P (c # cs) = P c"

text \<open>The two-character operators, each with its two code points.\<close>

definition two_char_operators :: "(TSSymbol \<times> int \<times> int) list" where
  "two_char_operators =
    [(anon_sym_LT_EQ, 60, 61), (anon_sym_GT_EQ, 62, 61), (anon_sym_BANG_EQ, 33, 61)]"

text \<open>
  The tokens after which a new operand is expected: the operators and the opening
  parenthesis.
\<close>

definition operator_tokens :: "TSSymbol list" where
  "operator_tokens =
    [anon_sym_COMMA, anon_sym_EQ_EQ, anon_sym_BANG_EQ, anon_sym_LT, anon_sym_LT_EQ,
     anon_sym_GT, anon_sym_GT_EQ, anon_sym_PLUS, anon_sym_DASH, anon_sym_STAR,
     anon_sym_SLASH, anon_sym_QMARK, anon_sym_COLON, anon_sym_BANG, anon_sym_LPAREN]"





section \<open>Vocabulary of the proofs\<close>

text \<open>
  The start states 0, 1 and 19 are entered only at the start and by skipping whitespace,
  state 20 only at the end of the input; every other state is entered by consuming a code
  point of the token.
\<close>

definition lex_ready :: "nat \<Rightarrow> int list \<Rightarrow> nat \<Rightarrow> nat \<Rightarrow> (TSSymbol \<times> nat) option \<Rightarrow> bool" where
  "lex_ready state inp pos tok_start res \<longleftrightarrow>
     (state \<in> {0, 1, 19} \<longrightarrow> res = None \<and> tok_start = pos)
   \<and> (state = 20 \<longrightarrow> res = None \<and> tok_start = pos \<and> inp = [])
   \<and> (state \<notin> {0, 1, 19, 20} \<longrightarrow> tok_start < pos)
   \<and> (\<forall>k e. res = Some (k, e) \<longrightarrow> tok_start < e \<and> e \<le> pos \<and> k \<noteq> ts_builtin_sym_end)"

text \<open>
  A node is well ranged when its range runs from the start of its first child to the end
  of its last child (and is empty when it has no children), its children are in order and
  do not overlap, and its children are well ranged. A token is well ranged when its start
  is not behind its end.
\<close>

definition in_order :: "node list \<Rightarrow> bool" where
  "in_order ns \<longleftrightarrow> sorted_wrt (\<lambda>a b. end_byte a \<le> start_byte b) ns"

fun well_ranged :: "node \<Rightarrow> bool" where
  "well_ranged (Token kind s e) = (s \<le> e)"
| "well_ranged (Node kind s e cs field_map) =
    ((if cs = [] then s = e else s = start_byte (hd cs) \<and> e = end_byte (last cs))
     \<and> sorted_wrt (\<lambda>a b. end_byte a \<le> start_byte b) cs
     \<and> (\<forall>c \<in> set cs. well_ranged c))"

text \<open>
  The stronger reading, with no gaps: the end of each child is the start of the next.
\<close>

fun adjacent :: "node list \<Rightarrow> bool" where
  "adjacent (a # b # ns) = (end_byte a = start_byte b \<and> adjacent (b # ns))"
| "adjacent ns = True"

fun gap_free :: "node \<Rightarrow> bool" where
  "gap_free (Token kind s e) = True"
| "gap_free (Node kind s e cs field_map) =
    ((cs \<noteq> [] \<longrightarrow> s = start_byte (hd cs) \<and> e = end_byte (last cs))
     \<and> adjacent cs
     \<and> (\<forall>c \<in> set cs. gap_free c))"

text \<open>
  The tokens cover the input up to an offset when every code point before the offset lies
  in one of the tokens or is whitespace.
\<close>

definition covered :: "int list \<Rightarrow> node list \<Rightarrow> nat \<Rightarrow> bool" where
  "covered buffer tokens pos \<longleftrightarrow>
    (\<forall>i < pos. (\<exists>t \<in> set tokens. start_byte t \<le> i \<and> i < end_byte t) \<or> is_space (buffer ! i))"

text \<open>
  What holds of the parser state in every round. The states on the stack are states of
  the table other than the start state; state 2 and the accepting state 29 sit only
  directly on the start state.
\<close>

fun states_ok :: "TSStateId list \<Rightarrow> bool" where
  "states_ok [] = True"
| "states_ok (state # below) =
    (state < STATE_COUNT \<and> state \<noteq> 1 \<and> ((state = 2 \<or> state = 29) \<longrightarrow> below = [])
     \<and> states_ok below)"

definition nodes_ok :: "node list \<Rightarrow> nat \<Rightarrow> bool" where
  "nodes_ok ns pos \<longleftrightarrow>
    (\<forall>n \<in> set ns. well_ranged n \<and> end_byte n \<le> pos) \<and> in_order ns"

definition parser_inv :: "int list \<Rightarrow> parser \<Rightarrow> bool" where
  "parser_inv buffer p \<longleftrightarrow>
    position p \<le> length buffer
    \<and> states_ok (map fst (stack p))
    \<and> (top_state (stack p) = 29 \<longrightarrow>
         (\<exists>a e. lookahead_token p = Some (ts_builtin_sym_end, a, e))
         \<and> node_kind (snd (hd (stack p))) = sym_program)
    \<and> (\<forall>t. lookahead_token p = Some t \<longrightarrow>
         (\<exists>m \<in> {0, 1, 19}. next_token buffer (position p) m = Some t))
    \<and> nodes_ok (rev (map snd (stack p))) (position p)
    \<and> covered buffer (concat (map tokens_of (rev (map snd (stack p))))) (position p)"

text \<open>What holds of the tree that the engine returns.\<close>

definition result_ok :: "int list \<Rightarrow> node \<Rightarrow> bool" where
  "result_ok buffer root \<longleftrightarrow>
    node_kind root = sym_program
    \<and> well_ranged root
    \<and> end_byte root \<le> length buffer
    \<and> covered buffer (tokens_of root) (length buffer)"

text \<open>
  The measure of the loop: the input not yet consumed, then the height of the stack, then
  a rank of the top state that falls along every chain of reduces.
\<close>

definition rank :: "TSStateId \<Rightarrow> nat" where
  "rank state =
    (if state = 29 then 0
     else if state = 2 then 1
     else if state = 3 \<or> state = 27 \<or> state = 28 then 2
     else if state = 1 \<or> state = 6 then 5
     else if state \<in> {4, 5, 7, 9, 10, 11, 12, 22} then 4
     else 3)"

definition parser_measure :: "int list \<Rightarrow> parser \<Rightarrow> nat \<times> nat" where
  "parser_measure buffer p =
    (length buffer - position p, 4 * length (stack p) + rank (top_state (stack p)))"

text \<open>
  The reduce actions of the table: the state that reduces, the symbol reduced to and the
  number of children.
\<close>

definition reductions :: "(TSStateId \<times> TSSymbol \<times> nat) set" where
  "reductions =
    {(1, sym_program, 0), (2, sym_program, 1), (3, aux_sym_program_repeat1, 2),
     (4, sym_group_expression, 3), (5, sym_binary_expression, 3), (6, sym_boolean, 1),
     (7, sym_ternary_expression, 5), (9, sym_binary_expression, 3),
     (10, sym_unary_expression, 2), (11, sym_binary_expression, 3),
     (12, sym_binary_expression, 3), (22, sym_binary_expression, 3),
     (27, sym_print_statement, 3), (28, sym_expression_statement, 2)}"

text \<open>A list of tokens in order that ends before an offset.\<close>

definition token_list :: "node list \<Rightarrow> nat \<Rightarrow> bool" where
  "token_list ts pos \<longleftrightarrow>
    in_order ts
    \<and> (\<forall>t \<in> set ts. (\<exists>kind s e. t = Token kind s e) \<and> well_ranged t \<and> end_byte t \<le> pos)"

text \<open>
  The error conditions of a round of the loop: the tokenizer finds no token (a lex error),
  or the table has no action for the top state and the token, or the action is
  \<^verbatim>\<open>RECOVER\<close>.
\<close>

definition lookahead_of :: "int list \<Rightarrow> parser \<Rightarrow> (TSSymbol \<times> nat \<times> nat) option" where
  "lookahead_of buffer p =
    (case lookahead_token p of
       Some t \<Rightarrow> Some t
     | None \<Rightarrow> next_token buffer (position p) (ts_lex_modes ! top_state (stack p)))"

definition error_condition :: "int list \<Rightarrow> parser \<Rightarrow> bool" where
  "error_condition buffer p \<longleftrightarrow>
    (case lookahead_of buffer p of
       None \<Rightarrow> True
     | Some (kind, s, e) \<Rightarrow> ts_language_actions (top_state (stack p)) kind \<in> {[], [RECOVER]})"

text \<open>
  A parser state is resynchronised when the node on top of its stack is an error node and
  the input has been consumed up to a synchronising token: the last token wrapped in the
  error node is a \<^verbatim>\<open>;\<close> that ends at the position, or the end of the input is
  the next token.
\<close>

definition resynchronised :: "int list \<Rightarrow> parser \<Rightarrow> bool" where
  "resynchronised buffer p \<longleftrightarrow>
    (case stack p of
       (state, Node kind s e wrapped field_map) # below \<Rightarrow>
         kind = ts_builtin_sym_error
         \<and> ((wrapped \<noteq> [] \<and> node_kind (last wrapped) = anon_sym_SEMI
              \<and> end_byte (last wrapped) = position p)
            \<or> (case next_token buffer (position p) (ts_lex_modes ! 0) of
                  Some (kind', s', e') \<Rightarrow> kind' = ts_builtin_sym_end
                | None \<Rightarrow> False))
     | _ \<Rightarrow> False)"

text \<open>
  The coverage property of section 8 of the specification, read literally: the source
  slices of the tokens in the given order, each behind the whitespace that the input holds
  between the end of the token before it (at first: the offset \<open>pos\<close>) and its start,
  and behind the last token the whitespace that the input holds up to its end.
\<close>

fun reconstruct :: "int list \<Rightarrow> nat \<Rightarrow> node list \<Rightarrow> int list" where
  "reconstruct buffer pos [] = filter is_space (drop pos buffer)"
| "reconstruct buffer pos (t # ts) =
    filter is_space (take (start_byte t - pos) (drop pos buffer))
    @ take (end_byte t - start_byte t) (drop (start_byte t) buffer)
    @ reconstruct buffer (end_byte t) ts"

section \<open>Properties of the lexer\<close>

subsection \<open>Whitespace\<close>

lemma ts_lex_state_space:
  "is_space c \<Longrightarrow> ts_lex_state 0 False c = (None, SKIP 0)"
  "is_space c \<Longrightarrow> ts_lex_state 1 False c = (None, SKIP 1)"
  "is_space c \<Longrightarrow> ts_lex_state 19 False c = (None, SKIP 19)"
  by (auto simp: is_space_def ts_lex_state_def)

lemma ts_lex_run_skip:
  assumes "state = 0 \<or> state = 1 \<or> state = 19" and "\<forall>c \<in> set ws. is_space c"
  shows "ts_lex_run state (ws @ rest) pos pos res =
         ts_lex_run state rest (pos + length ws) (pos + length ws) res"
  using assms(2)
proof (induction ws arbitrary: pos)
  case Nil
  show ?case by simp
next
  case (Cons c ws)
  then have "ts_lex_state state False c = (None, SKIP state)"
    using assms(1) ts_lex_state_space by auto
  with Cons show ?case by simp
qed

lemma ts_lex_skip:
  assumes "state = 0 \<or> state = 1 \<or> state = 19" and "\<forall>c \<in> set ws. is_space c"
  shows "ts_lex state (ws @ rest) = ts_lex_run state rest (length ws) (length ws) None"
  using ts_lex_run_skip [OF assms, of rest 0 None] by (simp add: ts_lex_def)

subsection \<open>Numbers\<close>

text \<open>The states 40 and 41 accept on entry, so what was accepted before does not matter.\<close>

lemma ts_lex_run_40_res:
  "ts_lex_run 40 inp pos tok_start res = ts_lex_run 40 inp pos tok_start None"
  by (cases inp) (simp_all add: ts_lex_state_def)

lemma ts_lex_run_41_res:
  "ts_lex_run 41 inp pos tok_start res = ts_lex_run 41 inp pos tok_start None"
  by (cases inp) (simp_all add: ts_lex_state_def)

lemma ts_lex_run_40_digits:
  "\<forall>c \<in> set ds. is_digit c \<Longrightarrow>
   ts_lex_run 40 (ds @ rest) pos tok_start res =
   ts_lex_run 40 rest (pos + length ds) tok_start None"
proof (induction ds arbitrary: pos res)
  case Nil
  show ?case using ts_lex_run_40_res [of rest pos tok_start res] by simp
next
  case (Cons d ds)
  then have "ts_lex_state 40 False d = (Some sym_number, ADVANCE 40)"
    by (auto simp: ts_lex_state_def is_digit_def)
  with Cons show ?case by simp
qed

lemma ts_lex_run_41_digits:
  "\<forall>c \<in> set ds. is_digit c \<Longrightarrow>
   ts_lex_run 41 (ds @ rest) pos tok_start res =
   ts_lex_run 41 rest (pos + length ds) tok_start None"
proof (induction ds arbitrary: pos res)
  case Nil
  show ?case using ts_lex_run_41_res [of rest pos tok_start res] by simp
next
  case (Cons d ds)
  then have "ts_lex_state 41 False d = (Some sym_number, ADVANCE 41)"
    by (auto simp: ts_lex_state_def is_digit_def)
  with Cons show ?case by simp
qed

lemma ts_lex_run_41_stop:
  "\<not> starts_with is_digit rest \<Longrightarrow>
   ts_lex_run 41 rest pos tok_start res = Some (sym_number, tok_start, pos)"
  by (cases rest) (auto simp: ts_lex_state_def is_digit_def)

lemma ts_lex_run_40_stop:
  "\<not> starts_with is_digit rest \<Longrightarrow> \<not> starts_with (\<lambda>c. c = 46) rest \<Longrightarrow>
   ts_lex_run 40 rest pos tok_start res = Some (sym_number, tok_start, pos)"
  by (cases rest) (auto simp: ts_lex_state_def is_digit_def)

lemma ts_lex_run_40_dot_stop:
  "\<not> starts_with is_digit rest \<Longrightarrow>
   ts_lex_run 40 (46 # rest) pos tok_start res = Some (sym_number, tok_start, pos)"
  by (cases rest) (auto simp: ts_lex_state_def is_digit_def)

lemma ts_lex_run_40_dot_digit:
  "is_digit d \<Longrightarrow>
   ts_lex_run 40 (46 # d # rest) pos tok_start res =
   ts_lex_run 41 rest (Suc (Suc pos)) tok_start None"
  using ts_lex_run_41_res [of rest "Suc (Suc pos)" tok_start "Some (sym_number, pos)"]
  by (auto simp: ts_lex_state_def is_digit_def)

subsection \<open>Strings\<close>

lemma ts_lex_run_2_body:
  "\<forall>c \<in> set body. c \<noteq> 34 \<and> c \<noteq> 0 \<Longrightarrow>
   ts_lex_run 2 (body @ rest) pos tok_start res =
   ts_lex_run 2 rest (pos + length body) tok_start res"
proof (induction body arbitrary: pos)
  case Nil
  show ?case by simp
next
  case (Cons c body)
  then have "ts_lex_state 2 False c = (None, ADVANCE 2)"
    by (auto simp: ts_lex_state_def)
  with Cons show ?case by simp
qed

subsection \<open>Where the two-character operators can be reached\<close>

text \<open>
  The accepting states 25, 27 and 29 of \<^verbatim>\<open>!=\<close>, \<^verbatim>\<open><=\<close> and \<^verbatim>\<open>>=\<close> are
  reached from the states 0, 1, 3, 26, 28 and 37 only; the automaton never enters one of
  these from any other state.
\<close>

lemma ts_lex_state_no_two_char:
  assumes "state \<notin> {0, 1, 3, 25, 26, 27, 28, 29, 37}"
    and "ts_lex_state state eof c = (acc, j)"
  shows "acc \<notin> {Some anon_sym_LT_EQ, Some anon_sym_GT_EQ, Some anon_sym_BANG_EQ}
       \<and> (\<forall>s. j = ADVANCE s \<or> j = SKIP s \<longrightarrow> s \<notin> {0, 1, 3, 25, 26, 27, 28, 29, 37})"
  using assms by (auto simp: ts_lex_state_def split: if_splits)

lemma ts_lex_run_no_two_char:
  "state \<notin> {0, 1, 3, 25, 26, 27, 28, 29, 37} \<Longrightarrow>
   (\<forall>sy e. res = Some (sy, e) \<longrightarrow> sy \<notin> {anon_sym_LT_EQ, anon_sym_GT_EQ, anon_sym_BANG_EQ}) \<Longrightarrow>
   ts_lex_run state inp pos tok_start res = Some (sy, a, b) \<Longrightarrow>
   sy \<notin> {anon_sym_LT_EQ, anon_sym_GT_EQ, anon_sym_BANG_EQ}"
proof (induction state inp pos tok_start res rule: ts_lex_run.induct)
  case (1 state pos tok_start res)
  obtain acc j where st: "ts_lex_state state True 0 = (acc, j)"
    by (cases "ts_lex_state state True 0")
  note f = ts_lex_state_no_two_char [OF "1.prems"(1) st]
  show ?case
  proof (cases j)
    case (ADVANCE s)
    show ?thesis
      using "1.IH"(1) [OF st [symmetric] refl ADVANCE] "1.prems" f st ADVANCE
      by (auto split: option.splits)
  next
    case (SKIP s)
    show ?thesis
      using "1.IH"(2) [OF st [symmetric] refl SKIP] "1.prems" f st SKIP
      by (auto split: option.splits)
  next
    case END_STATE
    then show ?thesis using "1.prems" f st by (auto split: option.splits)
  qed
next
  case (2 state c cs pos tok_start res)
  obtain acc j where st: "ts_lex_state state False c = (acc, j)"
    by (cases "ts_lex_state state False c")
  note f = ts_lex_state_no_two_char [OF "2.prems"(1) st]
  show ?case
  proof (cases j)
    case (ADVANCE s)
    show ?thesis
      using "2.IH"(1) [OF st [symmetric] refl ADVANCE] "2.prems" f st ADVANCE
      by (auto split: option.splits)
  next
    case (SKIP s)
    show ?thesis
      using "2.IH"(2) [OF st [symmetric] refl SKIP] "2.prems" f st SKIP
      by (auto split: option.splits)
  next
    case END_STATE
    then show ?thesis using "2.prems" f st by (auto split: option.splits)
  qed
qed

lemma ts_lex_modes_range: "p < STATE_COUNT \<Longrightarrow> ts_lex_modes ! p \<in> {0, 1, 19}"
proof -
  have "\<forall>m \<in> set ts_lex_modes. m \<in> {0, 1, 19}" by (simp add: ts_lex_modes_def)
  moreover have "length ts_lex_modes = STATE_COUNT"
    by (simp add: ts_lex_modes_def STATE_COUNT_def)
  ultimately show "p < STATE_COUNT \<Longrightarrow> ts_lex_modes ! p \<in> {0, 1, 19}"
    using nth_mem by metis
qed

subsection \<open>Bounds of a token\<close>

lemma ts_lex_state_advance:
  "ts_lex_state s False c = (acc, ADVANCE s') \<Longrightarrow> s' \<notin> {0, 1, 19, 20}"
  by (auto simp: ts_lex_state_def split: if_splits)

lemma ts_lex_state_skip:
  "ts_lex_state s False c = (acc, SKIP s') \<Longrightarrow>
   (s = 0 \<or> s = 1 \<or> s = 19) \<and> s' = s \<and> acc = None \<and> is_space c"
  by (auto simp: ts_lex_state_def is_space_def split: if_splits)

lemma ts_lex_state_accept:
  "ts_lex_state s eof c = (Some k, j) \<Longrightarrow>
   s \<notin> {0, 1, 19} \<and> (k = ts_builtin_sym_end \<longleftrightarrow> s = 20)"
  by (auto simp: ts_lex_state_def split: if_splits)

lemma ts_lex_state_eof_advance:
  "ts_lex_state s True 0 = (acc, ADVANCE s') \<Longrightarrow> (s = 0 \<or> s = 19) \<and> s' = 20 \<and> acc = None"
  by (auto simp: ts_lex_state_def split: if_splits)

lemma ts_lex_state_20: "ts_lex_state 20 eof c = (Some ts_builtin_sym_end, END_STATE)"
  by (simp add: ts_lex_state_def)


lemma ts_lex_run_bounds:
  "lex_ready state inp pos tok_start res \<Longrightarrow>
   ts_lex_run state inp pos tok_start res = Some (k, a, b) \<Longrightarrow>
   tok_start \<le> a \<and> a \<le> b \<and> b \<le> pos + length inp
   \<and> (k \<noteq> ts_builtin_sym_end \<longrightarrow> a < b)
   \<and> (k = ts_builtin_sym_end \<longrightarrow> a = pos + length inp \<and> b = a)
   \<and> (state \<notin> {0, 1, 19} \<longrightarrow> a = tok_start)
   \<and> (tok_start = pos \<longrightarrow> (\<forall>i < a - pos. is_space (inp ! i)))"
proof (induction state inp pos tok_start res rule: ts_lex_run.induct)
  case (1 state pos tok_start res)
  obtain acc j where st: "ts_lex_state state True 0 = (acc, j)"
    by (cases "ts_lex_state state True 0")
  show ?case
  proof (cases j)
    case (ADVANCE s)
    with st have s: "(state = 0 \<or> state = 19) \<and> s = 20 \<and> acc = None"
      using ts_lex_state_eof_advance by blast
    define res' where "res' = (case acc of Some sy \<Rightarrow> Some (sy, pos) | None \<Rightarrow> res)"
    have none: "res' = res" using s by (simp add: res'_def)
    have ready: "lex_ready s [] pos tok_start res'"
      using s "1.prems"(1) none by (auto simp: lex_ready_def)
    have run: "ts_lex_run s [] pos tok_start res' = Some (k, a, b)"
      using "1.prems"(2) st ADVANCE by (simp add: res'_def)
    from "1.IH"(1) [OF st [symmetric] res'_def [unfolded atomize_eq] ADVANCE ready run] s
      "1.prems"(1)
    show ?thesis by (auto simp: lex_ready_def)
  next
    case (SKIP s)
    with st show ?thesis using ts_lex_state_eof [of state acc j] by simp
  next
    case END_STATE
    show ?thesis
    proof (cases acc)
      case None
      then show ?thesis using "1.prems" st END_STATE
        by (auto simp: lex_ready_def)
    next
      case (Some k')
      then show ?thesis using "1.prems" st END_STATE ts_lex_state_accept [of state True 0 k' j]
        by (auto simp: lex_ready_def)
    qed
  qed
next
  case (2 state c cs pos tok_start res)
  obtain acc j where st: "ts_lex_state state False c = (acc, j)"
    by (cases "ts_lex_state state False c")
  have not20: "state \<noteq> 20" using "2.prems"(1) by (auto simp: lex_ready_def)
  have le: "tok_start \<le> pos" using "2.prems"(1) by (auto simp: lex_ready_def)
  define res' where "res' = (case acc of Some sy \<Rightarrow> Some (sy, pos) | None \<Rightarrow> res)"
  have res': "\<forall>k e. res' = Some (k, e) \<longrightarrow> tok_start < e \<and> e \<le> pos \<and> k \<noteq> ts_builtin_sym_end"
  proof (cases acc)
    case None
    then show ?thesis using "2.prems"(1) by (simp add: res'_def lex_ready_def)
  next
    case (Some k')
    then have "state \<notin> {0, 1, 19}" "k' \<noteq> ts_builtin_sym_end"
      using ts_lex_state_accept [of state False c k' j] st not20 by auto
    then show ?thesis using "2.prems"(1) Some not20 by (auto simp: res'_def lex_ready_def)
  qed
  show ?case
  proof (cases j)
    case (ADVANCE s)
    then have s: "s \<notin> {0, 1, 19, 20}" using st ts_lex_state_advance by blast
    have ready: "lex_ready s cs (Suc pos) tok_start res'"
      using s res' le by (auto simp: lex_ready_def)
    have run: "ts_lex_run s cs (Suc pos) tok_start res' = Some (k, a, b)"
      using "2.prems"(2) st ADVANCE by (simp add: res'_def)
    from "2.IH"(1) [OF st [symmetric] res'_def [unfolded atomize_eq] ADVANCE ready run] s le
    show ?thesis by auto
  next
    case (SKIP s)
    then have s: "(state = 0 \<or> state = 1 \<or> state = 19) \<and> s = state \<and> acc = None \<and> is_space c"
      using st ts_lex_state_skip by blast
    then have none: "res' = None" and eq: "tok_start = pos"
      using "2.prems"(1) by (auto simp: res'_def lex_ready_def)
    have ready: "lex_ready s cs (Suc pos) (Suc pos) res'"
      using s none by (auto simp: lex_ready_def)
    have run: "ts_lex_run s cs (Suc pos) (Suc pos) res' = Some (k, a, b)"
      using "2.prems"(2) st SKIP by (simp add: res'_def)
    note ih = "2.IH"(2) [OF st [symmetric] res'_def [unfolded atomize_eq] SKIP ready run]
    have "\<forall>i < a - pos. is_space ((c # cs) ! i)"
    proof (intro allI impI)
      fix i assume i: "i < a - pos"
      show "is_space ((c # cs) ! i)"
      proof (cases i)
        case 0
        then show ?thesis using s by simp
      next
        case (Suc i')
        then have "i' < a - Suc pos" using i by simp
        then show ?thesis using ih Suc by simp
      qed
    qed
    then show ?thesis using ih s eq by auto
  next
    case END_STATE
    then have "map_option (\<lambda>(sy, e). (sy, tok_start, e)) res' = Some (k, a, b)"
      using "2.prems"(2) st by (simp add: res'_def)
    then obtain e where "res' = Some (k, e)" "a = tok_start" "b = e"
      by (cases res') auto
    then show ?thesis using res' le by auto
  qed
qed

subsection \<open>What the tokenizer returns\<close>

lemma ts_lex_state_terminal:
  "ts_lex_state s eof c = (Some k, j) \<Longrightarrow> k \<in> set terminals"
  by (auto simp: ts_lex_state_def terminals_def split: if_splits)

lemma ts_lex_run_terminal:
  "ts_lex_run state inp pos tok_start res = Some (k, a, b) \<Longrightarrow>
   (\<forall>k' e. res = Some (k', e) \<longrightarrow> k' \<in> set terminals) \<Longrightarrow> k \<in> set terminals"
proof (induction state inp pos tok_start res rule: ts_lex_run.induct)
  case (1 state pos tok_start res)
  obtain acc j where st: "ts_lex_state state True 0 = (acc, j)"
    by (cases "ts_lex_state state True 0")
  define res' where "res' = (case acc of Some sy \<Rightarrow> Some (sy, pos) | None \<Rightarrow> res)"
  have res': "\<forall>k' e. res' = Some (k', e) \<longrightarrow> k' \<in> set terminals"
    using "1.prems"(2) st
    by (cases acc) (auto simp: res'_def dest: ts_lex_state_terminal)
  show ?case
  proof (cases j)
    case (ADVANCE s)
    have "ts_lex_run s [] pos tok_start res' = Some (k, a, b)"
      using "1.prems"(1) st ADVANCE by (simp add: res'_def)
    then show ?thesis
      using "1.IH"(1) [OF st [symmetric] res'_def [unfolded atomize_eq] ADVANCE] res' by blast
  next
    case (SKIP s)
    have "ts_lex_run s [] pos pos res' = Some (k, a, b)"
      using "1.prems"(1) st SKIP by (simp add: res'_def)
    then show ?thesis
      using "1.IH"(2) [OF st [symmetric] res'_def [unfolded atomize_eq] SKIP] res' by blast
  next
    case END_STATE
    then have "map_option (\<lambda>(sy, e). (sy, tok_start, e)) res' = Some (k, a, b)"
      using "1.prems"(1) st by (simp add: res'_def)
    then show ?thesis using res' by (cases res') auto
  qed
next
  case (2 state c cs pos tok_start res)
  obtain acc j where st: "ts_lex_state state False c = (acc, j)"
    by (cases "ts_lex_state state False c")
  define res' where "res' = (case acc of Some sy \<Rightarrow> Some (sy, pos) | None \<Rightarrow> res)"
  have res': "\<forall>k' e. res' = Some (k', e) \<longrightarrow> k' \<in> set terminals"
    using "2.prems"(2) st
    by (cases acc) (auto simp: res'_def dest: ts_lex_state_terminal)
  show ?case
  proof (cases j)
    case (ADVANCE s)
    have "ts_lex_run s cs (Suc pos) tok_start res' = Some (k, a, b)"
      using "2.prems"(1) st ADVANCE by (simp add: res'_def)
    then show ?thesis
      using "2.IH"(1) [OF st [symmetric] res'_def [unfolded atomize_eq] ADVANCE] res' by blast
  next
    case (SKIP s)
    have "ts_lex_run s cs (Suc pos) (Suc pos) res' = Some (k, a, b)"
      using "2.prems"(1) st SKIP by (simp add: res'_def)
    then show ?thesis
      using "2.IH"(2) [OF st [symmetric] res'_def [unfolded atomize_eq] SKIP] res' by blast
  next
    case END_STATE
    then have "map_option (\<lambda>(sy, e). (sy, tok_start, e)) res' = Some (k, a, b)"
      using "2.prems"(1) st by (simp add: res'_def)
    then show ?thesis using res' by (cases res') auto
  qed
qed

text \<open>
  A token of one of the three lexical modes starts behind skipped whitespace only, lies
  within the input and is not empty, unless it is the end of the input; the end of the
  input is found only when nothing but whitespace is left.
\<close>

lemma next_token_bounds:
  assumes "m \<in> {0, 1, 19}" and "pos \<le> length buffer"
    and "next_token buffer pos m = Some (k, a, e)"
  shows "pos \<le> a \<and> a \<le> e \<and> e \<le> length buffer
       \<and> k \<in> set terminals
       \<and> (k \<noteq> ts_builtin_sym_end \<longrightarrow> a < e)
       \<and> (k = ts_builtin_sym_end \<longrightarrow> a = length buffer \<and> e = a)
       \<and> (\<forall>i. pos \<le> i \<and> i < a \<longrightarrow> is_space (buffer ! i))"
proof -
  from assms(3) obtain a' e' where
    run: "ts_lex_run m (drop pos buffer) 0 0 None = Some (k, a', e')"
    and a: "a = pos + a'" and e: "e = pos + e'"
    by (auto simp: next_token_def ts_lex_def)
  have ready: "lex_ready m (drop pos buffer) 0 0 None"
    using assms(1) by (auto simp: lex_ready_def)
  note b = ts_lex_run_bounds [OF ready run, simplified]
  have "k \<in> set terminals" using ts_lex_run_terminal [OF run] by simp
  moreover have "is_space (buffer ! i)" if "pos \<le> i" "i < a" for i
  proof -
    have "i - pos < a'" using that a by simp
    then have "is_space (drop pos buffer ! (i - pos))" using b by blast
    moreover have "drop pos buffer ! (i - pos) = buffer ! (pos + (i - pos))"
      using assms(2) by (rule nth_drop)
    ultimately show ?thesis using that by simp
  qed
  ultimately show ?thesis using b a e assms(2) by auto
qed

lemma next_token_space:
  assumes "pos \<le> length buffer" and "\<forall>i. pos \<le> i \<and> i < length buffer \<longrightarrow> is_space (buffer ! i)"
  shows "next_token buffer pos 0 = Some (ts_builtin_sym_end, length buffer, length buffer)"
    and "next_token buffer pos 19 = Some (ts_builtin_sym_end, length buffer, length buffer)"
    and "next_token buffer pos 1 = None"
proof -
  have ws: "\<forall>c \<in> set (drop pos buffer). is_space c"
  proof
    fix c assume "c \<in> set (drop pos buffer)"
    then obtain i where i: "i < length (drop pos buffer)" "c = drop pos buffer ! i"
      by (auto simp: in_set_conv_nth)
    then have "c = buffer ! (pos + i)" using assms(1) by simp
    then show "is_space c" using assms(2) i by simp
  qed
  have "ts_lex m (drop pos buffer @ []) =
      ts_lex_run m [] (length (drop pos buffer)) (length (drop pos buffer)) None"
    if "m = 0 \<or> m = 1 \<or> m = 19" for m
    by (rule ts_lex_skip [OF that ws])
  then show "next_token buffer pos 0 = Some (ts_builtin_sym_end, length buffer, length buffer)"
    and "next_token buffer pos 19 = Some (ts_builtin_sym_end, length buffer, length buffer)"
    and "next_token buffer pos 1 = None"
    using assms(1) by (simp_all add: next_token_def ts_lex_state_def)
qed

lemma next_token_end_space:
  assumes "m \<in> {0, 1, 19}" and "pos \<le> length buffer"
    and "next_token buffer pos m = Some (ts_builtin_sym_end, a, e)"
  shows "\<forall>i. pos \<le> i \<and> i < length buffer \<longrightarrow> is_space (buffer ! i)"
  using next_token_bounds [OF assms] by simp

lemma next_token_none:
  assumes "pos \<le> length buffer" and "next_token buffer pos 0 = None"
  shows "pos + length (takeWhile is_space (drop pos buffer)) < length buffer"
proof (rule ccontr)
  assume "\<not> pos + length (takeWhile is_space (drop pos buffer)) < length buffer"
  then have "length (takeWhile is_space (drop pos buffer)) = length (drop pos buffer)"
    using length_takeWhile_le [of is_space "drop pos buffer"] assms(1) by simp
  then have "takeWhile is_space (drop pos buffer) = drop pos buffer"
    using takeWhile_eq_take [of is_space "drop pos buffer"] by simp
  then have ws: "\<forall>c \<in> set (drop pos buffer). is_space c"
    by (simp add: takeWhile_eq_all_conv)
  have "is_space (buffer ! i)" if "pos \<le> i" "i < length buffer" for i
  proof -
    have "drop pos buffer ! (i - pos) = buffer ! (pos + (i - pos))"
      using assms(1) by (rule nth_drop)
    moreover have "drop pos buffer ! (i - pos) \<in> set (drop pos buffer)"
      using that by (intro nth_mem) simp
    ultimately show ?thesis using ws that by simp
  qed
  with next_token_space(1) [OF assms(1)] assms(2) show False by simp
qed

section \<open>Properties of the tables\<close>

lemmas table_defs = ts_language_actions_def ts_language_lookup_def ts_language_next_state_def
  ts_parse_table_def ts_small_parse_table_def ts_small_parse_table_map_def ts_parse_actions_def
  STATE_COUNT_def LARGE_STATE_COUNT_def ACTIONS_def STATE_def expression_symbols_def

lemma state_cases:
  assumes "state < STATE_COUNT"
  shows "state \<in> {0, 1, 2, 3, 4, 5, 6, 7, 8, 9, 10, 11, 12, 13, 14, 15, 16, 17,
     18, 19, 20, 21, 22, 23, 24, 25, 26, 27, 28, 29}"
  using assms unfolding STATE_COUNT_def by simp arith

text \<open>The states that a shift of an operator or of an opening parenthesis leads to.\<close>

lemma operand_states:
  assumes "state < STATE_COUNT"
  shows "\<forall>t \<in> set operator_tokens. \<forall>p. SHIFT p \<in> set (ts_language_actions state t) \<longrightarrow>
   p \<in> {8, 13, 14, 15, 16, 17, 18, 20, 21}"
  using state_cases [OF assms]
  apply (elim insertE emptyE)
  apply (simp_all add: operator_tokens_def table_defs)
  done

lemma ts_lex_print:
  assumes "\<forall>c \<in> set ws. is_space c"
  shows "ts_lex 19 (ws @ codes ''print'' @ rest) = Some (anon_sym_print, length ws, length ws + 5)"
proof -
  have "ts_lex_run 19 (codes ''print'' @ rest) n n None = Some (anon_sym_print, n, n + 5)" for n
    by (cases rest) (simp_all add: codes_def ts_lex_state_def)
  then show ?thesis using ts_lex_skip [OF _ assms, of 19 "codes ''print'' @ rest"] by simp
qed

subsection \<open>The actions and the next states of the whole table\<close>

lemma action_cases:
  assumes "state < STATE_COUNT" and "k \<in> set terminals"
  shows "ts_language_actions state k = []
       \<or> ts_language_actions state k = [RECOVER]
       \<or> (\<exists>s'. ts_language_actions state k = [SHIFT s'] \<and> k \<noteq> ts_builtin_sym_end
             \<and> s' < STATE_COUNT \<and> s' \<notin> {0, 1, 2, 3, 29})
       \<or> (\<exists>symbol n production_id acts.
             ts_language_actions state k = REDUCE symbol n production_id # acts
             \<and> (state, symbol, n) \<in> reductions
             \<and> (symbol = sym_program \<longrightarrow> k = ts_builtin_sym_end))
       \<or> (ts_language_actions state k = [ACCEPT_INPUT] \<and> state = 29
             \<and> k = ts_builtin_sym_end)"
  using state_cases [OF assms(1)] assms(2) unfolding terminals_def
  by (elim insertE emptyE; simp; elim disjE; simp add: table_defs reductions_def)

lemma lookup_out_of_range: "\<not> u < STATE_COUNT \<Longrightarrow> ts_language_lookup u symbol = 0"
  by (simp add: ts_language_lookup_def STATE_COUNT_def LARGE_STATE_COUNT_def)

lemma next_state_expression:
  assumes "symbol \<in> {sym_group_expression, sym_binary_expression, sym_boolean,
     sym_ternary_expression, sym_unary_expression}"
  shows "ts_language_next_state u symbol \<in> {0, 5, 7, 9, 10, 11, 12, 22, 23, 24, 25, 26}"
    and "ts_language_next_state 1 symbol = 26"
proof -
  show "ts_language_next_state u symbol \<in> {0, 5, 7, 9, 10, 11, 12, 22, 23, 24, 25, 26}"
  proof (cases "u < STATE_COUNT")
    case True
    from state_cases [OF this] assms show ?thesis
      by (elim insertE emptyE; simp add: table_defs)
  next
    case False
    then show ?thesis using lookup_out_of_range by (simp add: ts_language_next_state_def)
  qed
  show "ts_language_next_state 1 symbol = 26"
    using assms by (elim insertE emptyE; simp add: table_defs)
qed

lemma next_state_statement:
  assumes "symbol \<in> {sym_print_statement, sym_expression_statement, aux_sym_program_repeat1,
     sym__statement}"
  shows "ts_language_next_state u symbol \<in> {0, 2, 3}"
    and "ts_language_next_state u symbol = 2 \<longrightarrow> u = 1"
    and "ts_language_next_state 1 symbol = 2"
    and "ts_language_next_state 2 symbol = 3"
    and "ts_language_next_state 3 symbol = 3"
proof -
  show "ts_language_next_state u symbol \<in> {0, 2, 3}"
    and "ts_language_next_state u symbol = 2 \<longrightarrow> u = 1"
  proof (atomize (full), cases "u < STATE_COUNT")
    case True
    from state_cases [OF this] assms
    show "ts_language_next_state u symbol \<in> {0, 2, 3}
        \<and> (ts_language_next_state u symbol = 2 \<longrightarrow> u = 1)"
      by (elim insertE emptyE; simp add: table_defs)
  next
    case False
    then show "ts_language_next_state u symbol \<in> {0, 2, 3}
        \<and> (ts_language_next_state u symbol = 2 \<longrightarrow> u = 1)"
      using lookup_out_of_range by (simp add: ts_language_next_state_def)
  qed
  show "ts_language_next_state 1 symbol = 2" "ts_language_next_state 2 symbol = 3"
    "ts_language_next_state 3 symbol = 3"
    using assms by (elim insertE emptyE; simp add: table_defs)+
qed

lemma next_state_program:
  "ts_language_next_state u sym_program \<in> {0, 29}"
  "ts_language_next_state u sym_program = 29 \<longrightarrow> u = 1"
  "ts_language_next_state 1 sym_program = 29"
proof -
  show "ts_language_next_state u sym_program \<in> {0, 29}"
    and "ts_language_next_state u sym_program = 29 \<longrightarrow> u = 1"
  proof (atomize (full), cases "u < STATE_COUNT")
    case True
    from state_cases [OF this]
    show "ts_language_next_state u sym_program \<in> {0, 29}
        \<and> (ts_language_next_state u sym_program = 29 \<longrightarrow> u = 1)"
      by (elim insertE emptyE; simp add: table_defs)
  next
    case False
    then show "ts_language_next_state u sym_program \<in> {0, 29}
        \<and> (ts_language_next_state u sym_program = 29 \<longrightarrow> u = 1)"
      using lookup_out_of_range by (simp add: ts_language_next_state_def)
  qed
  show "ts_language_next_state 1 sym_program = 29" by (simp add: table_defs)
qed

lemma at_statement_boundary_iff: "at_statement_boundary u \<longleftrightarrow> u \<in> {1, 2, 3}"
proof (cases "u < STATE_COUNT")
  case True
  from state_cases [OF this] show ?thesis
    unfolding at_statement_boundary_def
    by (elim insertE emptyE; simp add: table_defs)
next
  case False
  then show ?thesis
    using lookup_out_of_range [of u sym__statement]
    by (auto simp: at_statement_boundary_def ts_language_next_state_def STATE_COUNT_def)
qed

lemma end_actions:
  assumes "state \<in> {1, 2, 3, 27, 28, 29}"
  shows "ts_language_actions state ts_builtin_sym_end \<in>
    {[REDUCE sym_program 0 0], [REDUCE sym_program 1 0], [REDUCE aux_sym_program_repeat1 2 0],
     [REDUCE sym_print_statement 3 0], [REDUCE sym_expression_statement 2 0], [ACCEPT_INPUT]}"
  using assms by (elim insertE emptyE; simp add: table_defs)

lemma mode_1_states:
  assumes "state < STATE_COUNT" and "ts_lex_modes ! state = 1"
  shows "state \<notin> {1, 2, 3, 27, 28, 29}"
  using assms by (auto simp: ts_lex_modes_def)

section \<open>Properties of the engine\<close>

subsection \<open>Ranges of nodes\<close>

lemma in_order_append:
  "in_order (xs @ ys) \<longleftrightarrow>
   in_order xs \<and> in_order ys \<and> (\<forall>x \<in> set xs. \<forall>y \<in> set ys. end_byte x \<le> start_byte y)"
  by (simp add: in_order_def sorted_wrt_append)

lemma in_order_Cons:
  "in_order (x # ys) \<longleftrightarrow> in_order ys \<and> (\<forall>y \<in> set ys. end_byte x \<le> start_byte y)"
  by (auto simp: in_order_def)

lemma in_order_Nil [simp]: "in_order []"
  by (simp add: in_order_def)

lemma in_order_bounds:
  assumes "in_order cs" and "\<forall>c \<in> set cs. start_byte c \<le> end_byte c" and "c \<in> set cs"
  shows "start_byte (hd cs) \<le> start_byte c \<and> end_byte c \<le> end_byte (last cs)"
  using assms
proof (induction cs)
  case Nil
  then show ?case by simp
next
  case (Cons x xs)
  show ?case
  proof (cases "xs = []")
    case True
    with Cons.prems show ?thesis by simp
  next
    case False
    then have l: "last xs \<in> set xs" by simp
    show ?thesis
    proof (cases "c = x")
      case True
      have "end_byte x \<le> start_byte (last xs)" using Cons.prems(1) l by (simp add: in_order_Cons)
      moreover have "start_byte (last xs) \<le> end_byte (last xs)" using Cons.prems(2) l by simp
      ultimately show ?thesis using True False by simp
    next
      case c: False
      then have cx: "c \<in> set xs" using Cons.prems(3) by simp
      then have "end_byte c \<le> end_byte (last xs)"
        using Cons.IH Cons.prems by (simp add: in_order_Cons)
      moreover have "end_byte x \<le> start_byte c" using Cons.prems(1) cx by (simp add: in_order_Cons)
      moreover have "start_byte x \<le> end_byte x" using Cons.prems(2) by simp
      ultimately show ?thesis using False by simp
    qed
  qed
qed

lemma well_ranged_span: "well_ranged n \<Longrightarrow> start_byte n \<le> end_byte n"
proof (induction n)
  case (Token kind s e)
  then show ?case by simp
next
  case (Node kind s e cs fm)
  show ?case
  proof (cases "cs = []")
    case True
    with Node.prems show ?thesis by simp
  next
    case False
    have io: "in_order cs" using Node.prems by (simp add: in_order_def)
    have sp: "\<forall>c \<in> set cs. start_byte c \<le> end_byte c" using Node by simp
    have "start_byte (hd cs) \<le> start_byte (last cs) \<and> end_byte (last cs) \<le> end_byte (last cs)"
      using in_order_bounds [OF io sp, of "last cs"] False by simp
    moreover have "start_byte (last cs) \<le> end_byte (last cs)" using sp False by simp
    ultimately show ?thesis using Node.prems False by simp
  qed
qed

text \<open>
  Lists of nodes that each lie within one of the nodes of a list in order are in order
  when put one behind the other.
\<close>

lemma in_order_concat:
  assumes "in_order ns"
    and "\<forall>n \<in> set ns. start_byte n \<le> end_byte n"
    and "\<forall>n \<in> set ns. in_order (f n)
          \<and> (\<forall>m \<in> set (f n). start_byte n \<le> start_byte m \<and> end_byte m \<le> end_byte n)"
  shows "in_order (concat (map f ns))"
  using assms
proof (induction ns)
  case Nil
  then show ?case by simp
next
  case (Cons n ns)
  have "end_byte x \<le> start_byte y" if "x \<in> set (f n)" "y \<in> set (concat (map f ns))" for x y
  proof -
    from that(2) obtain n' where n': "n' \<in> set ns" "y \<in> set (f n')" by auto
    have "end_byte x \<le> end_byte n" using Cons.prems(3) that(1) by simp
    also have "\<dots> \<le> start_byte n'" using Cons.prems(1) n'(1) by (simp add: in_order_Cons)
    also have "\<dots> \<le> start_byte y" using Cons.prems(3) n' by simp
    finally show ?thesis .
  qed
  then show ?case using Cons by (simp add: in_order_append in_order_Cons)
qed

lemma tokens_of_ranged:
  "well_ranged n \<Longrightarrow>
   in_order (tokens_of n)
   \<and> (\<forall>t \<in> set (tokens_of n). well_ranged t \<and> (\<exists>kind s e. t = Token kind s e)
        \<and> start_byte n \<le> start_byte t \<and> end_byte t \<le> end_byte n)"
proof (induction n)
  case (Token kind s e)
  then show ?case by (simp add: in_order_def)
next
  case (Node kind s e cs fm)
  have io: "in_order cs" using Node.prems by (simp add: in_order_def)
  have wr: "\<forall>c \<in> set cs. well_ranged c" using Node.prems by simp
  then have sp: "\<forall>c \<in> set cs. start_byte c \<le> end_byte c" using well_ranged_span by blast
  have ih: "\<forall>c \<in> set cs. in_order (tokens_of c)
      \<and> (\<forall>t \<in> set (tokens_of c). well_ranged t \<and> (\<exists>kind s e. t = Token kind s e)
        \<and> start_byte c \<le> start_byte t \<and> end_byte t \<le> end_byte c)"
    using Node.IH wr by blast
  have "in_order (concat (map tokens_of cs))"
    by (rule in_order_concat [OF io sp]) (use ih in blast)
  moreover have "well_ranged t \<and> (\<exists>kind s e. t = Token kind s e)
        \<and> s \<le> start_byte t \<and> end_byte t \<le> e"
    if "t \<in> set (concat (map tokens_of cs))" for t
  proof -
    from that obtain c where c: "c \<in> set cs" "t \<in> set (tokens_of c)" by auto
    then have ne: "cs \<noteq> []" by auto
    have "start_byte (hd cs) \<le> start_byte c \<and> end_byte c \<le> end_byte (last cs)"
      by (rule in_order_bounds [OF io sp c(1)])
    moreover have "s = start_byte (hd cs)" "e = end_byte (last cs)" using Node.prems ne by simp_all
    ultimately show ?thesis using ih c by fastforce
  qed
  ultimately show ?case by simp
qed

subsection \<open>The tree builder\<close>

lemma flatten_hidden_ranged:
  assumes "well_ranged c"
  shows "in_order (flatten_hidden c)
       \<and> (\<forall>m \<in> set (flatten_hidden c). well_ranged m
            \<and> start_byte c \<le> start_byte m \<and> end_byte m \<le> end_byte c)"
proof (cases c)
  case (Token kind s e)
  with assms show ?thesis by (simp add: in_order_def)
next
  case (Node kind s e cs fm)
  show ?thesis
  proof (cases "ts_symbol_visible kind")
    case True
    with Node assms show ?thesis by (simp add: in_order_def)
  next
    case False
    have io: "in_order cs" using assms Node by (simp add: in_order_def)
    have wr: "\<forall>m \<in> set cs. well_ranged m" using assms Node by simp
    then have sp: "\<forall>m \<in> set cs. start_byte m \<le> end_byte m" using well_ranged_span by blast
    have "start_byte c \<le> start_byte m \<and> end_byte m \<le> end_byte c" if "m \<in> set cs" for m
    proof -
      have "cs \<noteq> []" using that by auto
      then have "s = start_byte (hd cs)" "e = end_byte (last cs)" using assms Node by simp_all
      then show ?thesis using in_order_bounds [OF io sp that] Node by simp
    qed
    then show ?thesis using io wr Node False by simp
  qed
qed

lemma flatten_hidden_tokens: "concat (map tokens_of (flatten_hidden c)) = tokens_of c"
  by (cases c) simp_all

lemma flatten_hidden_error: "has_error c \<Longrightarrow> \<exists>m \<in> set (flatten_hidden c). has_error m"
  by (cases c) auto

lemma concat_flatten_hidden_tokens:
  "concat (map tokens_of (concat (map flatten_hidden ps))) = concat (map tokens_of ps)"
  by (induction ps) (simp_all add: flatten_hidden_tokens)

lemma tree_builder_facts:
  assumes "in_order ps" and "\<forall>c \<in> set ps. well_ranged c"
  shows "well_ranged (tree_builder symbol production_id ps pos)"
    and "node_kind (tree_builder symbol production_id ps pos) = symbol"
    and "tokens_of (tree_builder symbol production_id ps pos) = concat (map tokens_of ps)"
    and "(\<exists>c \<in> set ps. has_error c) \<Longrightarrow> has_error (tree_builder symbol production_id ps pos)"
    and "(\<forall>c \<in> set ps. lo \<le> start_byte c) \<Longrightarrow> lo \<le> pos \<Longrightarrow>
         lo \<le> start_byte (tree_builder symbol production_id ps pos)"
    and "(\<forall>c \<in> set ps. end_byte c \<le> pos) \<Longrightarrow>
         end_byte (tree_builder symbol production_id ps pos) \<le> pos"
proof -
  define cs where "cs = concat (map flatten_hidden ps)"
  have tb: "tree_builder symbol production_id ps pos =
      Node symbol (if cs = [] then pos else start_byte (hd cs))
        (if cs = [] then pos else end_byte (last cs)) cs (ts_language_field_map production_id)"
    by (simp add: tree_builder_def cs_def Let_def)
  have sp: "\<forall>c \<in> set ps. start_byte c \<le> end_byte c"
    using assms(2) well_ranged_span by blast
  have io: "in_order cs" unfolding cs_def
    by (rule in_order_concat [OF assms(1) sp]) (use assms(2) flatten_hidden_ranged in blast)
  have el: "\<exists>c \<in> set ps. well_ranged m \<and> start_byte c \<le> start_byte m \<and> end_byte m \<le> end_byte c"
    if "m \<in> set cs" for m
  proof -
    from that obtain c where "c \<in> set ps" "m \<in> set (flatten_hidden c)" by (auto simp: cs_def)
    then show ?thesis using flatten_hidden_ranged assms(2) by blast
  qed
  show "well_ranged (tree_builder symbol production_id ps pos)"
    using io el by (auto simp: tb in_order_def)
  show "node_kind (tree_builder symbol production_id ps pos) = symbol"
    by (simp add: tb)
  show "tokens_of (tree_builder symbol production_id ps pos) = concat (map tokens_of ps)"
    by (simp add: tb cs_def concat_flatten_hidden_tokens)
  show "has_error (tree_builder symbol production_id ps pos)" if "\<exists>c \<in> set ps. has_error c"
  proof -
    from that obtain c where "c \<in> set ps" "has_error c" by blast
    then have "\<exists>m \<in> set cs. has_error m"
      using flatten_hidden_error [of c] unfolding cs_def by auto
    then show ?thesis by (simp add: tb)
  qed
  show "lo \<le> start_byte (tree_builder symbol production_id ps pos)"
    if "\<forall>c \<in> set ps. lo \<le> start_byte c" "lo \<le> pos"
  proof (cases "cs = []")
    case True
    then show ?thesis using that by (simp add: tb)
  next
    case False
    then have "hd cs \<in> set cs" by simp
    from el [OF this] that show ?thesis using False by (auto simp: tb)
  qed
  show "end_byte (tree_builder symbol production_id ps pos) \<le> pos"
    if "\<forall>c \<in> set ps. end_byte c \<le> pos"
  proof (cases "cs = []")
    case True
    then show ?thesis by (simp add: tb)
  next
    case False
    then have "last cs \<in> set cs" by simp
    from el [OF this] that show ?thesis using False by (auto simp: tb)
  qed
qed

subsection \<open>Resynchronisation\<close>

lemma token_list_snoc:
  assumes "token_list ts pos" and "pos \<le> s" and "s \<le> e"
  shows "token_list (ts @ [Token kind s e]) e"
proof -
  have "in_order (ts @ [Token kind s e])"
    using assms by (simp add: token_list_def in_order_append in_order_Cons) force
  moreover have "\<forall>t \<in> set ts. end_byte t \<le> e" using assms by (simp add: token_list_def) force
  ultimately show ?thesis using assms by (simp add: token_list_def)
qed

lemma lex_mode_0: "ts_lex_modes ! 0 = 0"
  by (simp add: ts_lex_modes_def)

declare synchronize.simps [simp del]

lemma synchronize_facts:
  "pos \<le> length buffer \<Longrightarrow> token_list passed pos \<Longrightarrow>
   synchronize buffer pos passed = (wrapped, pos') \<Longrightarrow>
   pos \<le> pos' \<and> pos' \<le> length buffer
   \<and> (\<exists>new. wrapped = passed @ new \<and> (\<forall>t \<in> set new. pos \<le> start_byte t))
   \<and> token_list wrapped pos'
   \<and> (\<forall>i. pos \<le> i \<and> i < pos' \<longrightarrow>
        (\<exists>t \<in> set wrapped. start_byte t \<le> i \<and> i < end_byte t) \<or> is_space (buffer ! i))
   \<and> (pos' = pos \<longrightarrow> (\<exists>a e. next_token buffer pos 0 = Some (ts_builtin_sym_end, a, e)))
   \<and> ((\<exists>s. wrapped \<noteq> [] \<and> last wrapped = Token anon_sym_SEMI s pos')
       \<or> (\<exists>a e. next_token buffer pos' 0 = Some (ts_builtin_sym_end, a, e)))"
proof (induction buffer pos passed rule: synchronize.induct)
  case (1 buffer pos passed)
  show ?case
  proof (cases "next_token buffer pos 0")
    case None
    define at where "at = pos + length (takeWhile is_space (drop pos buffer))"
    have lt: "at < length buffer"
      unfolding at_def by (rule next_token_none [OF "1.prems"(1) None])
    define q where "q = Suc at"
    define passed' where "passed' = passed @ [Token ts_builtin_sym_error at q]"
    have q: "pos < q" "q \<le> length buffer" "pos \<le> at" using lt by (simp_all add: q_def at_def)
    have plt: "pos < length buffer" using lt q by simp
    have sync: "synchronize buffer q passed' = (wrapped, pos')"
      using "1.prems"(3) None plt
      by (subst (asm) synchronize.simps)
         (simp add: lex_mode_0 q_def at_def passed'_def Let_def)
    have tl: "token_list passed' q"
      unfolding passed'_def by (rule token_list_snoc [OF "1.prems"(2) q(3)]) (simp add: q_def)
    note ih = "1.IH"(1) [unfolded lex_mode_0, OF None plt at_def [unfolded atomize_eq],
        folded q_def, folded passed'_def, OF q(2) tl sync]
    have "pos \<le> pos'" "pos' \<noteq> pos" using ih q by simp_all
    moreover have "\<exists>new. wrapped = passed @ new \<and> (\<forall>t \<in> set new. pos \<le> start_byte t)"
    proof -
      from ih obtain new where new: "wrapped = passed' @ new"
        "\<forall>t \<in> set new. q \<le> start_byte t" by blast
      have "\<forall>t \<in> set (Token ts_builtin_sym_error at q # new). pos \<le> start_byte t"
        using new(2) q by auto
      then show ?thesis using new(1)
        by (intro exI [of _ "Token ts_builtin_sym_error at q # new"]) (simp add: passed'_def)
    qed
    moreover have "(\<exists>t \<in> set wrapped. start_byte t \<le> i \<and> i < end_byte t) \<or> is_space (buffer ! i)"
      if i: "pos \<le> i" "i < pos'" for i
    proof -
      consider "i < at" | "i = at" | "q \<le> i" using q_def by linarith
      then show ?thesis
      proof cases
        case 1
        then have "i - pos < length (takeWhile is_space (drop pos buffer))"
          using i by (simp add: at_def)
        then have "is_space (takeWhile is_space (drop pos buffer) ! (i - pos))"
          using nth_mem set_takeWhileD by metis
        moreover have "takeWhile is_space (drop pos buffer) ! (i - pos) = drop pos buffer ! (i - pos)"
          using \<open>i - pos < length (takeWhile is_space (drop pos buffer))\<close>
          by (rule takeWhile_nth)
        ultimately show ?thesis using i plt by simp
      next
        case 2
        from ih obtain new where "wrapped = passed' @ new" by blast
        then have "Token ts_builtin_sym_error at q \<in> set wrapped" by (simp add: passed'_def)
        then show ?thesis using 2 by (force simp: q_def)
      next
        case 3
        then show ?thesis using ih i by blast
      qed
    qed
    ultimately show ?thesis using ih by blast
  next
    case (Some t)
    obtain k a e where t: "t = (k, a, e)" by (cases t)
    have tok: "next_token buffer pos 0 = Some (k, a, e)" using Some t by simp
    have b: "pos \<le> a" "a \<le> e" "e \<le> length buffer" "k \<noteq> ts_builtin_sym_end \<longrightarrow> a < e"
      using next_token_bounds [OF _ "1.prems"(1) tok] by simp_all
    have ws: "\<forall>i. pos \<le> i \<and> i < a \<longrightarrow> is_space (buffer ! i)"
      using next_token_bounds [OF _ "1.prems"(1) tok] by simp
    have here: "(\<exists>t \<in> set ts. start_byte t \<le> i \<and> i < end_byte t) \<or> is_space (buffer ! i)"
      if "Token k a e \<in> set ts" "pos \<le> i" "i < e" for ts i
    proof (cases "i < a")
      case True
      then show ?thesis using ws that by simp
    next
      case False
      then have "start_byte (Token k a e) \<le> i \<and> i < end_byte (Token k a e)" using that by simp
      then show ?thesis using that(1) by blast
    qed
    show ?thesis
    proof (cases "k = ts_builtin_sym_end")
      case True
      then have w: "wrapped = passed" "pos' = pos"
        using "1.prems"(3) tok
        by (subst (asm) synchronize.simps, simp add: lex_mode_0)+
      have "\<exists>a e. next_token buffer pos 0 = Some (ts_builtin_sym_end, a, e)"
        using tok True by blast
      then show ?thesis using "1.prems"(1,2) w by auto
    next
      case False
      then have ae: "a < e" using b by simp
      have tl: "token_list (passed @ [Token k a e]) e"
        by (rule token_list_snoc [OF "1.prems"(2) b(1,2)])
      show ?thesis
      proof (cases "k = anon_sym_SEMI")
        case True
        then have w: "wrapped = passed @ [Token k a e]" "pos' = e"
          using "1.prems"(3) tok False
          by (subst (asm) synchronize.simps, auto simp: lex_mode_0)+
        have "pos \<le> pos'" "pos' \<noteq> pos" "pos' \<le> length buffer" using w b ae by simp_all
        moreover have "\<exists>s. wrapped \<noteq> [] \<and> last wrapped = Token anon_sym_SEMI s pos'"
          using w True by simp
        moreover have "\<exists>new. wrapped = passed @ new \<and> (\<forall>t \<in> set new. pos \<le> start_byte t)"
          using w b by simp
        moreover have "\<forall>i. pos \<le> i \<and> i < pos' \<longrightarrow>
            (\<exists>t \<in> set wrapped. start_byte t \<le> i \<and> i < end_byte t) \<or> is_space (buffer ! i)"
          using here [of wrapped] w by simp
        ultimately show ?thesis using tl w by blast
      next
        case semi: False
        have guard: "pos < e \<and> e \<le> length buffer" using b ae by simp
        have sync: "synchronize buffer e (passed @ [Token k a e]) = (wrapped, pos')"
          using "1.prems"(3) tok False semi guard
          by (subst (asm) synchronize.simps) (simp add: lex_mode_0)
        note ih = "1.IH"(2) [unfolded lex_mode_0, OF tok refl refl False semi guard b(3) tl sync]
        have "pos \<le> pos'" "pos' \<noteq> pos" using ih guard by simp_all
        moreover have "\<exists>new. wrapped = passed @ new \<and> (\<forall>t \<in> set new. pos \<le> start_byte t)"
        proof -
          from ih obtain new where new: "wrapped = (passed @ [Token k a e]) @ new"
            "\<forall>t \<in> set new. e \<le> start_byte t" by blast
          have "\<forall>t \<in> set (Token k a e # new). pos \<le> start_byte t"
            using new(2) b guard by auto
          then show ?thesis using new(1) by (intro exI [of _ "Token k a e # new"]) simp
        qed
        moreover have "(\<exists>t \<in> set wrapped. start_byte t \<le> i \<and> i < end_byte t) \<or> is_space (buffer ! i)"
          if i: "pos \<le> i" "i < pos'" for i
        proof (cases "i < e")
          case True
          from ih obtain new where "wrapped = (passed @ [Token k a e]) @ new" by blast
          then have "Token k a e \<in> set wrapped" by simp
          then show ?thesis using here i True by blast
        next
          case False
          then show ?thesis using ih i by simp
        qed
        ultimately show ?thesis using ih by blast
      qed
    qed
  qed
qed

subsection \<open>Error recovery\<close>

lemma states_ok_append: "states_ok (xs @ ys) \<Longrightarrow> states_ok ys"
  by (induction xs) auto

lemma states_ok_drop: "states_ok xs \<Longrightarrow> states_ok (drop n xs)"
  using states_ok_append [of "take n xs" "drop n xs"] by simp

lemma states_ok_less: "states_ok xs \<Longrightarrow> s \<in> set xs \<Longrightarrow> s < STATE_COUNT \<and> s \<noteq> 1"
  by (induction xs) auto

lemma top_state_states:
  "states_ok (map fst st) \<Longrightarrow> top_state st < STATE_COUNT \<and> (top_state st = 1 \<longleftrightarrow> st = [])"
  by (cases st) (auto simp: start_state_def STATE_COUNT_def)

lemma nodes_tokens:
  assumes "nodes_ok ms pos"
  shows "token_list (concat (map tokens_of ms)) pos"
    and "\<forall>t \<in> set (concat (map tokens_of ms)). \<exists>n \<in> set ms. start_byte n \<le> start_byte t"
proof -
  have wr: "\<forall>n \<in> set ms. well_ranged n" and io: "in_order ms"
    and en: "\<forall>n \<in> set ms. end_byte n \<le> pos"
    using assms by (simp_all add: nodes_ok_def)
  have sp: "\<forall>n \<in> set ms. start_byte n \<le> end_byte n" using wr well_ranged_span by blast
  have "in_order (concat (map tokens_of ms))"
    by (rule in_order_concat [OF io sp]) (use wr tokens_of_ranged in blast)
  moreover have "(\<exists>kind s e. t = Token kind s e) \<and> well_ranged t \<and> end_byte t \<le> pos
      \<and> (\<exists>n \<in> set ms. start_byte n \<le> start_byte t)"
    if "t \<in> set (concat (map tokens_of ms))" for t
  proof -
    from that obtain n where n: "n \<in> set ms" "t \<in> set (tokens_of n)" by auto
    then have "well_ranged n" "end_byte n \<le> pos" using wr en by simp_all
    with tokens_of_ranged [of n] n show ?thesis by fastforce
  qed
  ultimately show "token_list (concat (map tokens_of ms)) pos"
    and "\<forall>t \<in> set (concat (map tokens_of ms)). \<exists>n \<in> set ms. start_byte n \<le> start_byte t"
    by (auto simp: token_list_def)
qed

lemma nodes_ok_append:
  "nodes_ok (xs @ ys) pos \<longleftrightarrow>
   nodes_ok xs pos \<and> nodes_ok ys pos \<and> (\<forall>x \<in> set xs. \<forall>y \<in> set ys. end_byte x \<le> start_byte y)"
  by (auto simp: nodes_ok_def in_order_append)

lemma nodes_ok_mono: "nodes_ok ns pos \<Longrightarrow> pos \<le> pos' \<Longrightarrow> nodes_ok ns pos'"
  by (force simp: nodes_ok_def)

lemma nodes_okD: "nodes_ok ns pos \<Longrightarrow> n \<in> set ns \<Longrightarrow> well_ranged n \<and> end_byte n \<le> pos"
  by (simp add: nodes_ok_def)

lemma error_recovery_facts:
  assumes inv: "parser_inv buffer p"
  defines "p' \<equiv> error_recovery buffer p"
  shows "parser_inv buffer p'"
    and "position p \<le> position p'"
    and "position p' = position p \<longrightarrow>
           (\<exists>a e. next_token buffer (position p) 0 = Some (ts_builtin_sym_end, a, e))"
    and "top_state (stack p') \<in> {2, 3}"
    and "top_state (stack p) \<notin> {1, 2, 3} \<longrightarrow> length (stack p') \<le> length (stack p)"
    and "\<exists>state s e wrapped below. stack p' = (state, Node ts_builtin_sym_error s e wrapped []) # below
           \<and> ((\<exists>s'. wrapped \<noteq> [] \<and> last wrapped = Token anon_sym_SEMI s' (position p'))
              \<or> (\<exists>a e. next_token buffer (position p') 0 = Some (ts_builtin_sym_end, a, e)))"
proof -
  define above where "above = takeWhile (\<lambda>(state, n). \<not> at_statement_boundary state) (stack p)"
  define base where "base = dropWhile (\<lambda>(state, n). \<not> at_statement_boundary state) (stack p)"
  define consumed where "consumed = concat (map tokens_of (rev (map snd above)))"
  have split: "stack p = above @ base" by (simp add: above_def base_def)
  have consumed_eq: "concat (map (\<lambda>(state, n). tokens_of n) (rev above)) = consumed"
    by (simp add: consumed_def rev_map case_prod_unfold comp_def)
  obtain wrapped pos' where sync: "synchronize buffer (position p) consumed = (wrapped, pos')"
    by (cases "synchronize buffer (position p) consumed")
  define s0 where "s0 = (if wrapped = [] then position p else start_byte (hd wrapped))"
  define e0 where "e0 = (if wrapped = [] then position p else end_byte (last wrapped))"
  define err where "err = Node ts_builtin_sym_error s0 e0 wrapped []"
  define state' where "state' = ts_language_next_state (top_state base) sym__statement"
  have p': "p' = \<lparr>stack = (state', err) # base, position = pos', lookahead_token = None\<rparr>"
    unfolding p'_def error_recovery_def
    by (simp add: Let_def above_def [symmetric] base_def [symmetric] consumed_eq sync
        s0_def e0_def err_def state'_def)
  have pos: "position p \<le> length buffer" and sok: "states_ok (map fst (stack p))"
    and nok: "nodes_ok (rev (map snd (stack p))) (position p)"
    using inv by (simp_all add: parser_inv_def)
  have nsplit: "rev (map snd (stack p)) = rev (map snd base) @ rev (map snd above)"
    by (simp add: split)
  have nbase: "nodes_ok (rev (map snd base)) (position p)"
    and nabove: "nodes_ok (rev (map snd above)) (position p)"
    and cross: "\<forall>x \<in> set (rev (map snd base)). \<forall>y \<in> set (rev (map snd above)).
        end_byte x \<le> start_byte y"
    using nok unfolding nsplit nodes_ok_append by simp_all
  have tl: "token_list consumed (position p)" unfolding consumed_def
    by (rule nodes_tokens(1) [OF nabove])
  note sf = synchronize_facts [OF pos tl sync]
  from sf obtain new where new: "wrapped = consumed @ new"
    "\<forall>t \<in> set new. position p \<le> start_byte t" by blast
  have tlw: "token_list wrapped pos'" using sf by simp
  have le: "position p \<le> pos'" "pos' \<le> length buffer" using sf by simp_all
  \<comment> \<open>the state pushed with the error node\<close>
  have sbase: "states_ok (map fst base)" using sok split states_ok_append by simp
  have tb: "top_state base \<in> {1, 2, 3}"
  proof (cases base)
    case Nil
    then show ?thesis by (simp add: start_state_def)
  next
    case (Cons x xs)
    then have "at_statement_boundary (fst x)"
      unfolding base_def dropWhile_eq_Cons_conv by (simp add: case_prod_unfold)
    then show ?thesis using Cons at_statement_boundary_iff by (cases x) simp
  qed
  have st': "state' \<in> {2, 3}" "state' = 2 \<longrightarrow> base = []"
  proof -
    have sym: "sym__statement \<in> {sym_print_statement, sym_expression_statement,
        aux_sym_program_repeat1, sym__statement}" by simp
    note ns = next_state_statement [OF sym]
    show "state' \<in> {2, 3}" using tb ns(3,4,5) by (auto simp: state'_def)
    have "top_state base = 1 \<longleftrightarrow> base = []" using top_state_states [OF sbase] by simp
    then show "state' = 2 \<longrightarrow> base = []" using ns(2) [of "top_state base"] by (simp add: state'_def)
  qed
  have sok': "states_ok (map fst (stack p'))"
    using st' sbase by (auto simp: p' STATE_COUNT_def)
  \<comment> \<open>the error node\<close>
  have wr: "well_ranged err"
    using tlw by (auto simp: err_def s0_def e0_def token_list_def in_order_def)
  have een: "end_byte err \<le> pos'"
    using tlw le by (auto simp: err_def e0_def token_list_def)
  have est: "end_byte b \<le> start_byte err" if b: "b \<in> set (rev (map snd base))" for b
  proof (cases "wrapped = []")
    case True
    then show ?thesis using nodes_okD [OF nbase b] by (simp add: err_def s0_def)
  next
    case False
    show ?thesis
    proof (cases "consumed = []")
      case True
      then have "hd wrapped \<in> set new" using new False by simp
      then have "position p \<le> start_byte (hd wrapped)" using new(2) by blast
      moreover have "end_byte b \<le> position p" using nodes_okD [OF nbase b] by simp
      ultimately show ?thesis using False by (simp add: err_def s0_def)
    next
      case c: False
      then have "hd wrapped = hd consumed" "hd consumed \<in> set consumed" using new by simp_all
      then obtain n where n: "n \<in> set (rev (map snd above))" "start_byte n \<le> start_byte (hd wrapped)"
        using nodes_tokens(2) [OF nabove] unfolding consumed_def by metis
      then have "end_byte b \<le> start_byte n" using cross b by blast
      then show ?thesis using n False by (simp add: err_def s0_def)
    qed
  qed
  have nok': "nodes_ok (rev (map snd (stack p'))) (position p')"
  proof -
    have "nodes_ok (rev (map snd base)) pos'" by (rule nodes_ok_mono [OF nbase le(1)])
    moreover have "nodes_ok [err] pos'" using wr een by (simp add: nodes_ok_def in_order_def)
    ultimately show ?thesis using est by (simp add: p' nodes_ok_append)
  qed
  have toks: "tokens_of err = wrapped"
  proof -
    have "\<forall>t \<in> set wrapped. tokens_of t = [t]" using tlw by (auto simp: token_list_def)
    then have "concat (map tokens_of wrapped) = wrapped" by (induction wrapped) simp_all
    then show ?thesis by (simp add: err_def)
  qed
  have cov: "covered buffer (concat (map tokens_of (rev (map snd (stack p'))))) (position p')"
  proof -
    have old: "covered buffer (concat (map tokens_of (rev (map snd base))) @ consumed) (position p)"
      using inv by (simp add: parser_inv_def nsplit consumed_def)
    have "(\<exists>t \<in> set (concat (map tokens_of (rev (map snd base))) @ wrapped).
              start_byte t \<le> i \<and> i < end_byte t) \<or> is_space (buffer ! i)"
      if i: "i < pos'" for i
    proof (cases "i < position p")
      case True
      from old [unfolded covered_def, rule_format, OF True]
      show ?thesis unfolding new(1) by auto
    next
      case False
      then have "(\<exists>t \<in> set wrapped. start_byte t \<le> i \<and> i < end_byte t) \<or> is_space (buffer ! i)"
        using sf i by simp
      then show ?thesis by auto
    qed
    then show ?thesis unfolding covered_def by (simp add: p' toks)
  qed
  show "parser_inv buffer p'"
    unfolding parser_inv_def using le sok' nok' cov st' by (auto simp: p')
  show "position p \<le> position p'" using le by (simp add: p')
  show "position p' = position p \<longrightarrow>
      (\<exists>a e. next_token buffer (position p) 0 = Some (ts_builtin_sym_end, a, e))"
    using sf by (simp add: p')
  show "top_state (stack p') \<in> {2, 3}" using st' by (simp add: p')
  show "top_state (stack p) \<notin> {1, 2, 3} \<longrightarrow> length (stack p') \<le> length (stack p)"
  proof
    assume t: "top_state (stack p) \<notin> {1, 2, 3}"
    then obtain x xs where x: "stack p = x # xs" by (cases "stack p") (auto simp: start_state_def)
    then have "\<not> at_statement_boundary (fst x)"
      using t at_statement_boundary_iff by (cases x) simp
    then have "above \<noteq> []" using x by (simp add: above_def case_prod_unfold)
    then show "length (stack p') \<le> length (stack p)"
      using split by (cases above) (simp_all add: p')
  qed
  show "\<exists>state s e wrapped below. stack p' = (state, Node ts_builtin_sym_error s e wrapped []) # below
      \<and> ((\<exists>s'. wrapped \<noteq> [] \<and> last wrapped = Token anon_sym_SEMI s' (position p'))
         \<or> (\<exists>a e. next_token buffer (position p') 0 = Some (ts_builtin_sym_end, a, e)))"
    using sf by (simp add: p' err_def)
qed

subsection \<open>One round of the loop\<close>

lemma covered_mono:
  "covered buffer ts pos \<Longrightarrow> set ts \<subseteq> set ts' \<Longrightarrow>
   (\<forall>i. pos \<le> i \<and> i < pos' \<longrightarrow>
      (\<exists>t \<in> set ts'. start_byte t \<le> i \<and> i < end_byte t) \<or> is_space (buffer ! i)) \<Longrightarrow>
   covered buffer ts' pos'"
  unfolding covered_def by (metis not_le subsetD)

lemma shift_step:
  assumes inv: "parser_inv buffer p"
    and m: "m \<in> {0, 1, 19}" and tok: "next_token buffer (position p) m = Some (k, a, e)"
    and k: "k \<noteq> ts_builtin_sym_end"
    and s': "s' < STATE_COUNT" "s' \<notin> {0, 1, 2, 3, 29}"
  defines "p' \<equiv> \<lparr>stack = (s', Token k a e) # stack p, position = e, lookahead_token = None\<rparr>"
  shows "parser_inv buffer p'"
    and "(parser_measure buffer p', parser_measure buffer p) \<in> less_than <*lex*> less_than"
proof -
  have pos: "position p \<le> length buffer" and sok: "states_ok (map fst (stack p))"
    and nok: "nodes_ok (rev (map snd (stack p))) (position p)"
    using inv by (simp_all add: parser_inv_def)
  note b = next_token_bounds [OF m pos tok]
  have ae: "position p \<le> a" "a < e" "e \<le> length buffer" using b k by simp_all
  have kt: "k \<noteq> ts_builtin_sym_error" using b by (auto simp: terminals_def)
  have "nodes_ok (rev (map snd (stack p))) e"
    by (rule nodes_ok_mono [OF nok]) (use ae in simp)
  moreover have "nodes_ok [Token k a e] e" using ae by (simp add: nodes_ok_def in_order_def)
  moreover have "\<forall>x \<in> set (rev (map snd (stack p))). end_byte x \<le> a"
    using nodes_okD [OF nok] ae by fastforce
  ultimately have nok': "nodes_ok (rev (map snd (stack p')) ) (position p')"
    by (simp add: p'_def nodes_ok_append)
  have cov: "covered buffer (concat (map tokens_of (rev (map snd (stack p'))))) (position p')"
  proof -
    have "covered buffer (concat (map tokens_of (rev (map snd (stack p))))) (position p)"
      using inv by (simp add: parser_inv_def)
    then show ?thesis
    proof (rule covered_mono)
      show "set (concat (map tokens_of (rev (map snd (stack p)))))
          \<subseteq> set (concat (map tokens_of (rev (map snd (stack p')))))"
        by (auto simp: p'_def)
      show "\<forall>i. position p \<le> i \<and> i < position p' \<longrightarrow>
          (\<exists>t \<in> set (concat (map tokens_of (rev (map snd (stack p'))))).
             start_byte t \<le> i \<and> i < end_byte t) \<or> is_space (buffer ! i)"
      proof (intro allI impI)
        fix i assume i: "position p \<le> i \<and> i < position p'"
        show "(\<exists>t \<in> set (concat (map tokens_of (rev (map snd (stack p'))))).
             start_byte t \<le> i \<and> i < end_byte t) \<or> is_space (buffer ! i)"
        proof (cases "i < a")
          case True
          then show ?thesis using b i by simp
        next
          case False
          then have "start_byte (Token k a e) \<le> i \<and> i < end_byte (Token k a e)"
            using i by (simp add: p'_def)
          moreover have "Token k a e \<in> set (concat (map tokens_of (rev (map snd (stack p')))))"
            by (simp add: p'_def)
          ultimately show ?thesis by blast
        qed
      qed
    qed
  qed
  show "parser_inv buffer p'"
    unfolding parser_inv_def using ae sok s' nok' cov
    by (auto simp: p'_def STATE_COUNT_def)
  show "(parser_measure buffer p', parser_measure buffer p) \<in> less_than <*lex*> less_than"
  proof -
    have "length buffer - e < length buffer - position p" using ae by linarith
    then show ?thesis by (simp add: parser_measure_def p'_def)
  qed
qed

lemma rank_expression:
  "r \<in> {0, 5, 7, 9, 10, 11, 12, 22, 23, 24, 25, 26} \<Longrightarrow> rank r \<le> 4"
  by (auto simp: rank_def)

lemma rank_statement: "r \<in> {0, 2, 3} \<Longrightarrow> rank r \<le> 3"
  by (auto simp: rank_def)

lemma reduce_step:
  fixes production_id :: nat
  assumes inv: "parser_inv buffer p"
    and red: "(top_state (stack p), symbol, n) \<in> reductions"
    and m: "m \<in> {0, 1, 19}" and tok: "next_token buffer (position p) m = Some (k, a, e)"
    and prog: "symbol = sym_program \<longrightarrow> k = ts_builtin_sym_end"
  defines "below \<equiv> drop n (stack p)"
  defines "popped \<equiv> rev (map snd (take n (stack p)))"
  defines "p' \<equiv> \<lparr>stack = (ts_language_next_state (top_state below) symbol,
                       tree_builder symbol production_id popped (position p)) # below,
                  position = position p, lookahead_token = Some (k, a, e)\<rparr>"
  shows "parser_inv buffer p'"
    and "(parser_measure buffer p', parser_measure buffer p) \<in> less_than <*lex*> less_than"
proof -
  define r where "r = ts_language_next_state (top_state below) symbol"
  define node where "node = tree_builder symbol production_id popped (position p)"
  have p': "p' = \<lparr>stack = (r, node) # below, position = position p,
      lookahead_token = Some (k, a, e)\<rparr>"
    by (simp add: p'_def r_def node_def)
  have pos: "position p \<le> length buffer" and sok: "states_ok (map fst (stack p))"
    and nok: "nodes_ok (rev (map snd (stack p))) (position p)"
    using inv by (simp_all add: parser_inv_def)
  have sbelow: "states_ok (map fst below)"
    using states_ok_drop [OF sok, of n] by (simp add: below_def drop_map)
  have u1: "top_state below = 1 \<longleftrightarrow> below = []" using top_state_states [OF sbelow] by simp
  have top1: "top_state (stack p) = 1 \<longleftrightarrow> stack p = []" using top_state_states [OF sok] by simp
  \<comment> \<open>the kinds of reduced symbols\<close>
  consider (program) "symbol = sym_program"
    | (statement) "symbol \<in> {sym_print_statement, sym_expression_statement,
        aux_sym_program_repeat1}"
    | (expression) "symbol \<in> {sym_group_expression, sym_binary_expression, sym_boolean,
        sym_ternary_expression, sym_unary_expression}"
    using red by (auto simp: reductions_def)
  then have r: "r < STATE_COUNT \<and> r \<noteq> 1 \<and> (r = 2 \<or> r = 29 \<longrightarrow> top_state below = 1)
      \<and> (r = 29 \<longrightarrow> symbol = sym_program)"
  proof cases
    case program
    then show ?thesis
      using next_state_program(1,2) [of "top_state below"]
      by (auto simp: r_def STATE_COUNT_def)
  next
    case statement
    then have "symbol \<in> {sym_print_statement, sym_expression_statement,
        aux_sym_program_repeat1, sym__statement}" by blast
    from next_state_statement(1,2) [OF this, of "top_state below"]
    show ?thesis by (auto simp: r_def STATE_COUNT_def)
  next
    case expression
    from next_state_expression(1) [OF this, of "top_state below"]
    show ?thesis by (auto simp: r_def STATE_COUNT_def)
  qed
  have sok': "states_ok (map fst (stack p'))"
    using r u1 sbelow by (simp add: p')
  \<comment> \<open>the nodes\<close>
  have nsplit: "rev (map snd (stack p)) = rev (map snd below) @ popped"
    unfolding below_def popped_def
    by (metis append_take_drop_id map_append rev_append)
  have nbelow: "nodes_ok (rev (map snd below)) (position p)"
    and npopped: "nodes_ok popped (position p)"
    and cross: "\<forall>x \<in> set (rev (map snd below)). \<forall>y \<in> set popped. end_byte x \<le> start_byte y"
    using nok unfolding nsplit nodes_ok_append by simp_all
  have io: "in_order popped" and wr: "\<forall>c \<in> set popped. well_ranged c"
    and en: "\<forall>c \<in> set popped. end_byte c \<le> position p"
    using npopped by (simp_all add: nodes_ok_def)
  note tf = tree_builder_facts [OF io wr, where symbol = symbol
      and production_id = production_id and pos = "position p", folded node_def]
  have "nodes_ok [node] (position p)"
    using tf(1) tf(6) [OF en] by (simp add: nodes_ok_def in_order_def)
  moreover have "\<forall>x \<in> set (rev (map snd below)). end_byte x \<le> start_byte node"
  proof
    fix x assume x: "x \<in> set (rev (map snd below))"
    have "end_byte x \<le> position p" using nodes_okD [OF nbelow x] by simp
    moreover have "\<forall>c \<in> set popped. end_byte x \<le> start_byte c" using cross x by blast
    ultimately show "end_byte x \<le> start_byte node" using tf(5) by blast
  qed
  ultimately have nok': "nodes_ok (rev (map snd (stack p'))) (position p')"
    using nbelow by (simp add: p' nodes_ok_append)
  have cov: "covered buffer (concat (map tokens_of (rev (map snd (stack p'))))) (position p')"
  proof -
    have "covered buffer (concat (map tokens_of (rev (map snd (stack p))))) (position p)"
      using inv by (simp add: parser_inv_def)
    moreover have "concat (map tokens_of (rev (map snd (stack p')))) =
        concat (map tokens_of (rev (map snd (stack p))))"
      unfolding nsplit by (simp add: p' tf(3))
    ultimately show ?thesis by (simp add: p')
  qed
  have look: "\<exists>m \<in> {0, 1, 19}. next_token buffer (position p') m = Some (k, a, e)"
    using m tok by (auto simp: p')
  have acc: "top_state (stack p') = 29 \<longrightarrow>
      (\<exists>a e. lookahead_token p' = Some (ts_builtin_sym_end, a, e))
      \<and> node_kind (snd (hd (stack p'))) = sym_program"
    using r prog tf(2) by (simp add: p')
  show "parser_inv buffer p'"
    unfolding parser_inv_def using pos sok' acc look nok' cov
    by (simp add: p')
  \<comment> \<open>the measure\<close>
  have len: "length below = length (stack p) - n" by (simp add: below_def)
  have g: "4 * length (stack p') + rank (top_state (stack p'))
      < 4 * length (stack p) + rank (top_state (stack p))"
  proof -
    consider (A) "top_state (stack p) = 1" "symbol = sym_program" "n = 0"
      | (B) "top_state (stack p) = 2" "symbol = sym_program" "n = 1"
      | (C) "symbol \<in> {sym_print_statement, sym_expression_statement, aux_sym_program_repeat1}"
          "2 \<le> n" "rank (top_state (stack p)) = 2" "top_state (stack p) \<noteq> 1"
      | (D) "symbol = sym_boolean" "n = 1" "rank (top_state (stack p)) = 5"
          "top_state (stack p) \<noteq> 1"
      | (E) "symbol \<in> {sym_group_expression, sym_binary_expression,
          sym_ternary_expression, sym_unary_expression}"
          "2 \<le> n" "rank (top_state (stack p)) = 4" "top_state (stack p) \<noteq> 1"
      using red by (auto simp: reductions_def rank_def)
    then show ?thesis
    proof cases
      case A
      then have "stack p = []" using top1 by simp
      then have "below = []" by (simp add: below_def)
      then have "r = 29" using A next_state_program(3) by (simp add: r_def start_state_def)
      then show ?thesis using A \<open>stack p = []\<close> \<open>below = []\<close>
        by (simp add: p' rank_def start_state_def)
    next
      case B
      then obtain x where x: "stack p = [x]"
        using sok by (cases "stack p") (auto simp: start_state_def)
      then have "below = []" using B by (simp add: below_def)
      then have "r = 29" using B next_state_program(3) by (simp add: r_def start_state_def)
      then show ?thesis using B x \<open>below = []\<close> by (simp add: p' rank_def)
    next
      case C
      then have sym: "symbol \<in> {sym_print_statement, sym_expression_statement,
          aux_sym_program_repeat1, sym__statement}" by blast
      have ne: "stack p \<noteq> []" using C top1 by simp
      show ?thesis
      proof (cases "length (stack p) = 1")
        case True
        then have "below = []" using C by (simp add: below_def)
        then have "r = 2" using next_state_statement(3) [OF sym] by (simp add: r_def start_state_def)
        then show ?thesis using C True \<open>below = []\<close> by (simp add: p' rank_def)
      next
        case False
        then have "2 \<le> length (stack p)"
          using ne by (cases "stack p"; cases "tl (stack p)") auto
        moreover have "rank r \<le> 3"
          using rank_statement next_state_statement(1) [OF sym] by (simp add: r_def)
        ultimately show ?thesis using C len by (simp add: p')
      qed
    next
      case D
      then have sym: "symbol \<in> {sym_group_expression, sym_binary_expression, sym_boolean,
          sym_ternary_expression, sym_unary_expression}" by blast
      have ne: "stack p \<noteq> []" using D top1 by simp
      then have "1 \<le> length (stack p)" by (cases "stack p") auto
      moreover have "rank r \<le> 4"
        using rank_expression next_state_expression(1) [OF sym] by (simp add: r_def)
      ultimately show ?thesis using D len by (simp add: p')
    next
      case E
      then have sym: "symbol \<in> {sym_group_expression, sym_binary_expression, sym_boolean,
          sym_ternary_expression, sym_unary_expression}" by blast
      have ne: "stack p \<noteq> []" using E top1 by simp
      show ?thesis
      proof (cases "length (stack p) = 1")
        case True
        then have "below = []" using E by (simp add: below_def)
        then have "r = 26" using next_state_expression(2) [OF sym] by (simp add: r_def start_state_def)
        then show ?thesis using E True \<open>below = []\<close> by (simp add: p' rank_def)
      next
        case False
        then have "2 \<le> length (stack p)"
          using ne by (cases "stack p"; cases "tl (stack p)") auto
        moreover have "rank r \<le> 4"
          using rank_expression next_state_expression(1) [OF sym] by (simp add: r_def)
        ultimately show ?thesis using E len by (simp add: p')
      qed
    qed
  qed
  then show "(parser_measure buffer p', parser_measure buffer p) \<in> less_than <*lex*> less_than"
    by (simp add: parser_measure_def p')
qed

lemma rank_low: "rank state \<le> 2 \<Longrightarrow> state \<in> {2, 3, 27, 28, 29}"
  by (auto simp: rank_def split: if_splits)

lemma recovery_step:
  assumes inv: "parser_inv buffer p"
    and why: "(lookahead_token p = None
          \<and> next_token buffer (position p) (ts_lex_modes ! top_state (stack p)) = None)
        \<or> (\<exists>m \<in> {0, 1, 19}. \<exists>k a e. next_token buffer (position p) m = Some (k, a, e)
              \<and> ts_language_actions (top_state (stack p)) k \<in> {[], [RECOVER]})"
  defines "p' \<equiv> error_recovery buffer p"
  shows "parser_inv buffer p'"
    and "(parser_measure buffer p', parser_measure buffer p) \<in> less_than <*lex*> less_than"
proof -
  note f = error_recovery_facts [OF inv, folded p'_def]
  show inv': "parser_inv buffer p'" by (rule f(1))
  have pos: "position p \<le> length buffer" and sok: "states_ok (map fst (stack p))"
    using inv by (simp_all add: parser_inv_def)
  have pos': "position p' \<le> length buffer" using inv' by (simp add: parser_inv_def)
  have less: "top_state (stack p) < STATE_COUNT" using top_state_states [OF sok] by simp
  show "(parser_measure buffer p', parser_measure buffer p) \<in> less_than <*lex*> less_than"
  proof (cases "position p' = position p")
    case False
    then have "length buffer - position p' < length buffer - position p"
      using f(2) pos' by linarith
    then show ?thesis by (simp add: parser_measure_def)
  next
    case True
    then obtain a e where "next_token buffer (position p) 0 = Some (ts_builtin_sym_end, a, e)"
      using f(3) by blast
    then have ws: "\<forall>i. position p \<le> i \<and> i < length buffer \<longrightarrow> is_space (buffer ! i)"
      using next_token_end_space [OF _ pos] by blast
    note sp = next_token_space [OF pos ws]
    have "top_state (stack p) \<notin> {1, 2, 3, 27, 28, 29}"
      using why
    proof (elim disjE conjE bexE exE)
      assume "next_token buffer (position p) (ts_lex_modes ! top_state (stack p)) = None"
      then have "ts_lex_modes ! top_state (stack p) = 1"
        using ts_lex_modes_range [OF less] sp by auto
      then show ?thesis using mode_1_states [OF less] by blast
    next
      fix m k a e
      assume m: "m \<in> {0, 1, 19}" and t: "next_token buffer (position p) m = Some (k, a, e)"
        and acts: "ts_language_actions (top_state (stack p)) k \<in> {[], [RECOVER]}"
      have "k = ts_builtin_sym_end" using m t sp by auto
      then show ?thesis using acts end_actions [of "top_state (stack p)"] by auto
    qed
    then have nl: "\<not> rank (top_state (stack p)) \<le> 2"
      using rank_low [of "top_state (stack p)"] by blast
    have "length (stack p') \<le> length (stack p)"
      using f(5) \<open>top_state (stack p) \<notin> {1, 2, 3, 27, 28, 29}\<close> by blast
    moreover have "3 \<le> rank (top_state (stack p))" using nl by linarith
    moreover have "rank (top_state (stack p')) \<le> 2" using f(4) by (auto simp: rank_def)
    ultimately show ?thesis using True by (simp add: parser_measure_def)
  qed
qed

lemma accept_result:
  assumes inv: "parser_inv buffer p" and top: "top_state (stack p) = 29"
    and st: "stack p = (state', root) # rest"
  shows "result_ok buffer root"
proof -
  have pos: "position p \<le> length buffer" and sok: "states_ok (map fst (stack p))"
    and nok: "nodes_ok (rev (map snd (stack p))) (position p)"
    using inv by (simp_all add: parser_inv_def)
  have rest: "rest = []" "state' = 29" using sok st top by simp_all
  have kind: "node_kind root = sym_program" using inv top st by (simp add: parser_inv_def)
  obtain a e where "lookahead_token p = Some (ts_builtin_sym_end, a, e)"
    using inv top by (auto simp: parser_inv_def)
  then obtain m where "m \<in> {0, 1, 19}"
    "next_token buffer (position p) m = Some (ts_builtin_sym_end, a, e)"
    using inv by (auto simp: parser_inv_def)
  then have ws: "\<forall>i. position p \<le> i \<and> i < length buffer \<longrightarrow> is_space (buffer ! i)"
    using next_token_end_space [OF _ pos] by blast
  have wr: "well_ranged root" "end_byte root \<le> position p"
    using nodes_okD [OF nok, of root] st by simp_all
  have "covered buffer (tokens_of root) (length buffer)"
  proof -
    have "covered buffer (tokens_of root) (position p)"
      using inv st rest by (simp add: parser_inv_def)
    then show ?thesis
      by (rule covered_mono) (use ws in auto)
  qed
  then show ?thesis using kind wr pos by (simp add: result_ok_def)
qed

lemma engine_step_facts:
  assumes inv: "parser_inv buffer p"
  shows "engine_step buffer p = Inl p' \<Longrightarrow>
         parser_inv buffer p'
         \<and> (parser_measure buffer p', parser_measure buffer p) \<in> less_than <*lex*> less_than"
    and "engine_step buffer p = Inr root \<Longrightarrow> result_ok buffer root"
proof -
  define state where "state = top_state (stack p)"
  define tok where "tok = (case lookahead_token p of Some t \<Rightarrow> Some t
      | None \<Rightarrow> next_token buffer (position p) (ts_lex_modes ! state))"
  have pos: "position p \<le> length buffer" and sok: "states_ok (map fst (stack p))"
    using inv by (simp_all add: parser_inv_def)
  have less: "state < STATE_COUNT" using top_state_states [OF sok] by (simp add: state_def)
  have mode: "ts_lex_modes ! state \<in> {0, 1, 19}" by (rule ts_lex_modes_range [OF less])
  have step_eq: "engine_step buffer p =
     (case tok of
       None \<Rightarrow> Inl (error_recovery buffer p)
     | Some (kind, s, e) \<Rightarrow>
        (case ts_language_actions state kind of
           SHIFT state' # _ \<Rightarrow>
             Inl \<lparr>stack = (state', Token kind s e) # stack p, position = e, lookahead_token = None\<rparr>
         | REDUCE symbol child_count production_id # _ \<Rightarrow>
             Inl \<lparr>stack = (ts_language_next_state (top_state (drop child_count (stack p))) symbol,
                     tree_builder symbol production_id
                       (rev (map snd (take child_count (stack p)))) (position p))
                     # drop child_count (stack p),
                   position = position p,
                   lookahead_token = Some (kind, s, e)\<rparr>
         | ACCEPT_INPUT # _ \<Rightarrow>
             (case stack p of
                (state', root) # _ \<Rightarrow> Inr root
              | [] \<Rightarrow> Inl (error_recovery buffer p))
         | _ \<Rightarrow> Inl (error_recovery buffer p)))"
    unfolding engine_step_def tok_def state_def Let_def ..
  have both: "(engine_step buffer p = Inl p' \<longrightarrow>
         parser_inv buffer p'
         \<and> (parser_measure buffer p', parser_measure buffer p) \<in> less_than <*lex*> less_than)
      \<and> (engine_step buffer p = Inr root \<longrightarrow> result_ok buffer root)"
  proof (cases tok)
    case None
    then have why: "lookahead_token p = None
        \<and> next_token buffer (position p) (ts_lex_modes ! top_state (stack p)) = None"
      by (auto simp: tok_def state_def split: option.splits)
    have "engine_step buffer p = Inl (error_recovery buffer p)"
      using None by (simp add: step_eq)
    then show ?thesis using recovery_step [OF inv disjI1 [OF why]] by auto
  next
    case (Some t)
    obtain k a e where t: "t = (k, a, e)" by (cases t)
    have "\<exists>m \<in> {0, 1, 19}. next_token buffer (position p) m = Some (k, a, e)"
    proof (cases "lookahead_token p")
      case None
      then show ?thesis using Some t mode by (auto simp: tok_def)
    next
      case (Some t')
      then show ?thesis using \<open>tok = Some t\<close> t inv by (auto simp: tok_def parser_inv_def)
    qed
    then obtain m where m: "m \<in> {0, 1, 19}"
      and tk: "next_token buffer (position p) m = Some (k, a, e)" by blast
    have kt: "k \<in> set terminals" using next_token_bounds [OF m pos tk] by simp
    have step: "engine_step buffer p =
      (case ts_language_actions state k of
           SHIFT state' # _ \<Rightarrow>
             Inl \<lparr>stack = (state', Token k a e) # stack p, position = e, lookahead_token = None\<rparr>
         | REDUCE symbol child_count production_id # _ \<Rightarrow>
             Inl \<lparr>stack = (ts_language_next_state (top_state (drop child_count (stack p))) symbol,
                     tree_builder symbol production_id
                       (rev (map snd (take child_count (stack p)))) (position p))
                     # drop child_count (stack p),
                   position = position p,
                   lookahead_token = Some (k, a, e)\<rparr>
         | ACCEPT_INPUT # _ \<Rightarrow>
             (case stack p of
                (state', root) # _ \<Rightarrow> Inr root
              | [] \<Rightarrow> Inl (error_recovery buffer p))
         | _ \<Rightarrow> Inl (error_recovery buffer p))"
      using Some t by (simp add: step_eq)
    from action_cases [OF less kt]
    show ?thesis
    proof (elim disjE exE conjE)
      assume "ts_language_actions state k = []"
      then have "engine_step buffer p = Inl (error_recovery buffer p)" using step by simp
      moreover have "\<exists>m \<in> {0, 1, 19}. \<exists>k a e. next_token buffer (position p) m = Some (k, a, e)
          \<and> ts_language_actions (top_state (stack p)) k \<in> {[], [RECOVER]}"
        using m tk \<open>ts_language_actions state k = []\<close> by (auto simp: state_def)
      ultimately show ?thesis using recovery_step [OF inv disjI2] by auto
    next
      assume "ts_language_actions state k = [RECOVER]"
      then have "engine_step buffer p = Inl (error_recovery buffer p)" using step by simp
      moreover have "\<exists>m \<in> {0, 1, 19}. \<exists>k a e. next_token buffer (position p) m = Some (k, a, e)
          \<and> ts_language_actions (top_state (stack p)) k \<in> {[], [RECOVER]}"
        using m tk \<open>ts_language_actions state k = [RECOVER]\<close> by (auto simp: state_def)
      ultimately show ?thesis using recovery_step [OF inv disjI2] by auto
    next
      fix s'
      assume a: "ts_language_actions state k = [SHIFT s']" "k \<noteq> ts_builtin_sym_end"
        "s' < STATE_COUNT" "s' \<notin> {0, 1, 2, 3, 29}"
      then have "engine_step buffer p =
          Inl \<lparr>stack = (s', Token k a e) # stack p, position = e, lookahead_token = None\<rparr>"
        using step by simp
      then show ?thesis using shift_step [OF inv m tk a(2,3,4)] by auto
    next
      fix symbol n production_id acts
      assume a: "ts_language_actions state k = REDUCE symbol n production_id # acts"
        "(state, symbol, n) \<in> reductions" "symbol = sym_program \<longrightarrow> k = ts_builtin_sym_end"
      then have "engine_step buffer p =
          Inl \<lparr>stack = (ts_language_next_state (top_state (drop n (stack p))) symbol,
                     tree_builder symbol production_id
                       (rev (map snd (take n (stack p)))) (position p)) # drop n (stack p),
                   position = position p, lookahead_token = Some (k, a, e)\<rparr>"
        using step by simp
      then show ?thesis
        using reduce_step [OF inv a(2) [unfolded state_def] m tk a(3), of production_id] by auto
    next
      assume a: "ts_language_actions state k = [ACCEPT_INPUT]" "state = 29"
      then obtain state' r rest where st: "stack p = (state', r) # rest"
        by (cases "stack p") (auto simp: state_def start_state_def)
      then have "engine_step buffer p = Inr r" using step a by simp
      then show ?thesis using accept_result [OF inv a(2) [unfolded state_def] st] by auto
    qed
  qed
  show "engine_step buffer p = Inl p' \<Longrightarrow>
         parser_inv buffer p'
         \<and> (parser_measure buffer p', parser_measure buffer p) \<in> less_than <*lex*> less_than"
    using both by blast
  show "engine_step buffer p = Inr root \<Longrightarrow> result_ok buffer root"
    using both by blast
qed

subsection \<open>The loop\<close>

lemma engine_loop_total:
  "parser_inv buffer p \<Longrightarrow> \<exists>root. engine_loop buffer p = Some root \<and> result_ok buffer root"
proof (induction p rule: wf_induct_rule [OF wf_inv_image [OF wf_lex_prod [OF wf_less_than
      wf_less_than], of "parser_measure buffer"]])
  case (1 p)
  show ?case
  proof (cases "engine_step buffer p")
    case (Inl p')
    from engine_step_facts(1) [OF "1.prems" Inl]
    have "parser_inv buffer p'"
      and "(p', p) \<in> inv_image (less_than <*lex*> less_than) (parser_measure buffer)"
      by (simp_all add: inv_image_def)
    from "1.IH" [OF this(2,1)] obtain root where
      "engine_loop buffer p' = Some root" "result_ok buffer root" by blast
    moreover have "engine_loop buffer p = engine_loop buffer p'"
      by (subst engine_loop.simps) (simp add: Inl)
    ultimately show ?thesis by simp
  next
    case (Inr root)
    have "engine_loop buffer p = Some root"
      by (subst engine_loop.simps) (simp add: Inr)
    then show ?thesis using engine_step_facts(2) [OF "1.prems" Inr] by simp
  qed
qed

lemma parser_inv_initial:
  "parser_inv buffer \<lparr>stack = [], position = 0, lookahead_token = None\<rparr>"
  by (simp add: parser_inv_def nodes_ok_def covered_def start_state_def)

lemma parse_total: "\<exists>root. parse buffer = Some root \<and> result_ok buffer root"
  unfolding parse_def by (rule engine_loop_total [OF parser_inv_initial])

subsection \<open>Putting the input together again\<close>

lemma reconstruct_covered:
  assumes "in_order ts"
    and "\<forall>t \<in> set ts. pos \<le> start_byte t \<and> start_byte t \<le> end_byte t
           \<and> end_byte t \<le> length buffer"
    and "pos \<le> length buffer"
    and "\<forall>i. pos \<le> i \<and> i < length buffer \<longrightarrow>
           (\<exists>t \<in> set ts. start_byte t \<le> i \<and> i < end_byte t) \<or> is_space (buffer ! i)"
  shows "reconstruct buffer pos ts = drop pos buffer"
  using assms
proof (induction ts arbitrary: pos)
  case Nil
  have "is_space c" if "c \<in> set (drop pos buffer)" for c
  proof -
    from that obtain j where "j < length (drop pos buffer)" "c = drop pos buffer ! j"
      by (metis in_set_conv_nth)
    then show ?thesis using Nil.prems(3,4) by simp
  qed
  then show ?case by (simp add: filter_id_conv)
next
  case (Cons t ts)
  define s where "s = start_byte t"
  define e where "e = end_byte t"
  have b: "pos \<le> s" "s \<le> e" "e \<le> length buffer" using Cons.prems(2) by (simp_all add: s_def e_def)
  have later: "\<forall>u \<in> set ts. e \<le> start_byte u"
    using Cons.prems(1) by (simp add: in_order_def e_def)
  have gap: "is_space c" if "c \<in> set (take (s - pos) (drop pos buffer))" for c
  proof -
    from that obtain j where j: "j < length (take (s - pos) (drop pos buffer))"
      "c = take (s - pos) (drop pos buffer) ! j"
      by (metis in_set_conv_nth)
    then have jl: "j < s - pos" "pos + j < length buffer" by auto
    then have c: "c = buffer ! (pos + j)" using j by simp
    have "\<not> (\<exists>u \<in> set (t # ts). start_byte u \<le> pos + j \<and> pos + j < end_byte u)"
      using jl later b by (auto simp: s_def)
    then show ?thesis using Cons.prems(4) jl c by (metis le_add1)
  qed
  have ih: "reconstruct buffer e ts = drop e buffer"
  proof (rule Cons.IH)
    show "in_order ts" using Cons.prems(1) by (simp add: in_order_def)
    show "\<forall>t \<in> set ts. e \<le> start_byte t \<and> start_byte t \<le> end_byte t
        \<and> end_byte t \<le> length buffer"
      using later Cons.prems(2) by simp
    show "e \<le> length buffer" by (rule b(3))
    show "\<forall>i. e \<le> i \<and> i < length buffer \<longrightarrow>
        (\<exists>t \<in> set ts. start_byte t \<le> i \<and> i < end_byte t) \<or> is_space (buffer ! i)"
    proof (intro allI impI)
      fix i assume i: "e \<le> i \<and> i < length buffer"
      then have "(\<exists>u \<in> set (t # ts). start_byte u \<le> i \<and> i < end_byte u) \<or> is_space (buffer ! i)"
        using Cons.prems(4) b by simp
      then show "(\<exists>t \<in> set ts. start_byte t \<le> i \<and> i < end_byte t) \<or> is_space (buffer ! i)"
        using i by (auto simp: e_def)
    qed
  qed
  have d1: "drop pos buffer = take (s - pos) (drop pos buffer) @ drop s buffer"
    using append_take_drop_id [of "s - pos" "drop pos buffer"] b by simp
  have d2: "drop s buffer = take (e - s) (drop s buffer) @ drop e buffer"
    using append_take_drop_id [of "e - s" "drop s buffer"] b by simp
  have "drop pos buffer =
      take (s - pos) (drop pos buffer) @ take (e - s) (drop s buffer) @ drop e buffer"
    using d1 d2 by simp
  moreover have "filter is_space (take (s - pos) (drop pos buffer)) = take (s - pos) (drop pos buffer)"
    using gap by (simp add: filter_id_conv)
  ultimately show ?case using ih by (simp add: s_def e_def)
qed

section \<open>Claims about the tokenizer\<close>

text \<open>
  Claim C7. A number token is a maximal run of one or more digits, optionally followed by
  a single \<^verbatim>\<open>.\<close> and one or more further digits; a \<^verbatim>\<open>.\<close> that no digit
  follows is not consumed into the token. In the lexical modes that know numbers (the lex
  states 0 and 19), after any skipped whitespace \<open>ws\<close> and for a non-empty run of
  digits \<open>ds\<close> followed by \<open>rest\<close>, where \<open>rest\<close> does not start with a digit:
  if \<open>rest\<close> does not start with \<^verbatim>\<open>.\<close> either, the token is exactly \<open>ds\<close>;
  the token of \<open>ds . rest\<close> is \<open>ds\<close> and ends before the \<^verbatim>\<open>.\<close>; and for a
  non-empty run of digits \<open>fs\<close> the token of \<open>ds . fs rest\<close> is \<open>ds . fs\<close>
  (so a second \<^verbatim>\<open>.\<close> at the start of \<open>rest\<close> is never consumed).
\<close>

theorem number_token:
  assumes "state = 0 \<or> state = 19"
    and "\<forall>c \<in> set ws. is_space c"
    and "ds \<noteq> []" and "\<forall>c \<in> set ds. is_digit c"
    and "\<not> starts_with is_digit rest"
  shows "(\<not> starts_with (\<lambda>c. c = 46) rest \<longrightarrow>
           ts_lex state (ws @ ds @ rest) = Some (sym_number, length ws, length ws + length ds))
       \<and> ts_lex state (ws @ ds @ 46 # rest) = Some (sym_number, length ws, length ws + length ds)
       \<and> (fs \<noteq> [] \<and> (\<forall>c \<in> set fs. is_digit c) \<longrightarrow>
           ts_lex state (ws @ ds @ 46 # fs @ rest) =
             Some (sym_number, length ws, length ws + length ds + 1 + length fs))"
proof -
  obtain d ds' where ds: "ds = d # ds'" using assms(3) by (cases ds) auto
  have d: "is_digit d" and ds': "\<forall>c \<in> set ds'. is_digit c" using assms(4) ds by auto
  have st: "state = 0 \<or> state = 1 \<or> state = 19" using assms(1) by blast
  have first: "ts_lex_state state False d = (None, ADVANCE 40)"
    using assms(1) d by (auto simp: ts_lex_state_def is_digit_def)
  have start: "ts_lex state (ws @ ds @ tail) =
      ts_lex_run 40 tail (length ws + length ds) (length ws) None" for tail
  proof -
    have "ts_lex state (ws @ ds @ tail) =
        ts_lex_run state (d # ds' @ tail) (length ws) (length ws) None"
      using ts_lex_skip [OF st assms(2), of "ds @ tail"] ds by simp
    also have "\<dots> = ts_lex_run 40 (ds' @ tail) (Suc (length ws)) (length ws) None"
      using first by simp
    also have "\<dots> = ts_lex_run 40 tail (Suc (length ws) + length ds') (length ws) None"
      using ts_lex_run_40_digits [OF ds'] by simp
    finally show ?thesis using ds by simp
  qed
  have a: "\<not> starts_with (\<lambda>c. c = 46) rest \<longrightarrow>
      ts_lex state (ws @ ds @ rest) = Some (sym_number, length ws, length ws + length ds)"
    using start [of rest] ts_lex_run_40_stop [OF assms(5)] by simp
  have b: "ts_lex state (ws @ ds @ 46 # rest) =
      Some (sym_number, length ws, length ws + length ds)"
    using start [of "46 # rest"] ts_lex_run_40_dot_stop [OF assms(5)] by simp
  have c: "ts_lex state (ws @ ds @ 46 # fs @ rest) =
      Some (sym_number, length ws, length ws + length ds + 1 + length fs)"
    if fs: "fs \<noteq> []" "\<forall>c \<in> set fs. is_digit c"
  proof -
    obtain f fs' where f: "fs = f # fs'" using fs(1) by (cases fs) auto
    have "is_digit f" and fs': "\<forall>c \<in> set fs'. is_digit c" using fs(2) f by auto
    then have "ts_lex_run 40 (46 # fs @ rest) (length ws + length ds) (length ws) None =
        ts_lex_run 41 (fs' @ rest) (Suc (Suc (length ws + length ds))) (length ws) None"
      using ts_lex_run_40_dot_digit [of f] f by simp
    also have "\<dots> = ts_lex_run 41 rest (Suc (Suc (length ws + length ds)) + length fs')
        (length ws) None"
      using ts_lex_run_41_digits [OF fs'] by simp
    also have "\<dots> = Some (sym_number, length ws, Suc (Suc (length ws + length ds)) + length fs')"
      using ts_lex_run_41_stop [OF assms(5)] by simp
    finally show ?thesis using start [of "46 # fs @ rest"] f by simp
  qed
  from a b c show ?thesis by blast
qed

theorem number_token_witness:
  "ts_lex 19 (codes '' 12;'') = Some (sym_number, 1, 3)
   \<and> ts_lex 19 (codes '' 12.;'') = Some (sym_number, 1, 3)
   \<and> ts_lex 19 (codes '' 12.50;'') = Some (sym_number, 1, 6)"
  using number_token [of 19 "codes '' ''" "codes ''12''" "codes '';''" "codes ''50''"]
  by (simp add: codes_def is_space_def is_digit_def)

text \<open>
  Claim C8. Tokenization is maximal munch on the two-character operators. The lexical
  modes that can recognise such an operator at all are the modes 0 and 1 (mode 1 is the
  mode of every parse state behind a complete operand), and no other mode ever yields it.
  In these modes the input \<^verbatim>\<open><=\<close> (after any skipped whitespace, and whatever
  follows) gives the one token \<^verbatim>\<open><=\<close> of length 2 and not \<^verbatim>\<open><\<close>; likewise
  \<^verbatim>\<open>>=\<close> and \<^verbatim>\<open>!=\<close>.
\<close>

theorem maximal_munch:
  assumes "p < STATE_COUNT"
    and "\<forall>c \<in> set ws. is_space c"
    and "(sy, a, b) \<in> set two_char_operators"
  shows "(ts_lex_modes ! p \<in> {0, 1} \<longrightarrow>
           ts_lex (ts_lex_modes ! p) (ws @ a # b # rest) = Some (sy, length ws, length ws + 2))
       \<and> ((\<exists>inp st en. ts_lex (ts_lex_modes ! p) inp = Some (sy, st, en))
            \<longleftrightarrow> ts_lex_modes ! p \<in> {0, 1})"
proof -
  have sy: "sy \<in> {anon_sym_LT_EQ, anon_sym_GT_EQ, anon_sym_BANG_EQ}"
    using assms(3) by (auto simp: two_char_operators_def)
  have munch: "ts_lex (ts_lex_modes ! p) (ws' @ a # b # rest') =
      Some (sy, length ws', length ws' + 2)"
    if m: "ts_lex_modes ! p \<in> {0, 1}" and ws': "\<forall>c \<in> set ws'. is_space c" for ws' rest'
  proof -
    from m have st: "ts_lex_modes ! p = 0 \<or> ts_lex_modes ! p = 1 \<or> ts_lex_modes ! p = 19"
      by blast
    have "ts_lex_run (ts_lex_modes ! p) (a # b # rest') (length ws') (length ws') None =
        Some (sy, length ws', length ws' + 2)"
    proof -
      have "a = 60 \<and> b = 61 \<and> sy = anon_sym_LT_EQ \<or> a = 62 \<and> b = 61 \<and> sy = anon_sym_GT_EQ
          \<or> a = 33 \<and> b = 61 \<and> sy = anon_sym_BANG_EQ"
        using assms(3) by (auto simp: two_char_operators_def)
      moreover have "ts_lex_run s (60 # 61 # rest') n n None = Some (anon_sym_LT_EQ, n, n + 2)"
        "ts_lex_run s (62 # 61 # rest') n n None = Some (anon_sym_GT_EQ, n, n + 2)"
        "ts_lex_run s (33 # 61 # rest') n n None = Some (anon_sym_BANG_EQ, n, n + 2)"
        if "s = 0 \<or> s = 1" for s n
        using that by (cases rest'; auto simp: ts_lex_state_def)+
      ultimately show ?thesis using m by blast
    qed
    then show ?thesis using ts_lex_skip [OF st ws', of "a # b # rest'"] by simp
  qed
  have only: "ts_lex_modes ! p \<in> {0, 1}"
    if "\<exists>inp st en. ts_lex (ts_lex_modes ! p) inp = Some (sy, st, en)"
  proof -
    have "ts_lex_modes ! p \<noteq> 19"
    proof
      assume m: "ts_lex_modes ! p = 19"
      from that obtain inp st en where "ts_lex_run 19 inp 0 0 None = Some (sy, st, en)"
        unfolding m ts_lex_def by blast
      then have "sy \<notin> {anon_sym_LT_EQ, anon_sym_GT_EQ, anon_sym_BANG_EQ}"
        by (rule ts_lex_run_no_two_char [rotated 2]) simp_all
      with sy show False by blast
    qed
    with ts_lex_modes_range [OF assms(1)] show ?thesis by auto
  qed
  have "\<exists>inp st en. ts_lex (ts_lex_modes ! p) inp = Some (sy, st, en)"
    if "ts_lex_modes ! p \<in> {0, 1}"
    using munch [OF that, of "[]" "[]"] by auto
  then show ?thesis using munch [OF _ assms(2)] only by blast
qed

theorem maximal_munch_witness:
  "ts_lex_modes ! 26 = 1
   \<and> ts_lex (ts_lex_modes ! 26) (codes '' <= 2;'') = Some (anon_sym_LT_EQ, 1, 3)
   \<and> ts_lex (ts_lex_modes ! 26) (codes '' >= 2;'') = Some (anon_sym_GT_EQ, 1, 3)
   \<and> ts_lex (ts_lex_modes ! 26) (codes '' != 2;'') = Some (anon_sym_BANG_EQ, 1, 3)
   \<and> ts_lex (ts_lex_modes ! 0) (codes ''>=='') = Some (anon_sym_GT_EQ, 0, 2)"
proof -
  have m: "ts_lex_modes ! 26 = 1" "ts_lex_modes ! 0 = 0" by (simp_all add: ts_lex_modes_def)
  show ?thesis
    using maximal_munch [of 26 "codes '' ''" anon_sym_LT_EQ 60 61 "codes '' 2;''"]
      maximal_munch [of 26 "codes '' ''" anon_sym_GT_EQ 62 61 "codes '' 2;''"]
      maximal_munch [of 26 "codes '' ''" anon_sym_BANG_EQ 33 61 "codes '' 2;''"]
      maximal_munch [of 0 "[]" anon_sym_GT_EQ 62 61 "codes ''=''"]
    by (simp add: m codes_def is_space_def STATE_COUNT_def two_char_operators_def)
qed

text \<open>
  Claim C9, as the code has it. A string token is a run between double quotes with no
  escape processing: in the lexical modes that know strings (the lex states 0 and 19),
  after an opening double quote every code point other than the double quote and the code
  point 0 is consumed (backslash and newline among them) until a closing double quote
  completes the token. If the end of the input, or a code point 0, comes before a closing
  double quote, the tokenizer produces no token. State 2 of \<^verbatim>\<open>ts_lex\<close> goes on only
  under \<^verbatim>\<open>lookahead != 0\<close>, and at the end of the input the lookahead is 0.
\<close>

theorem string_token:
  assumes "state = 0 \<or> state = 19"
    and "\<forall>c \<in> set ws. is_space c"
    and "\<forall>c \<in> set body. c \<noteq> 34 \<and> c \<noteq> 0"
  shows "ts_lex state (ws @ 34 # body @ 34 # rest) =
           Some (sym_string, length ws, length ws + length body + 2)
       \<and> ts_lex state (ws @ 34 # body) = None
       \<and> ts_lex state (ws @ 34 # body @ 0 # rest) = None"
proof -
  have st: "state = 0 \<or> state = 1 \<or> state = 19" using assms(1) by blast
  have first: "ts_lex_state state False 34 = (None, ADVANCE 2)"
    using assms(1) by (auto simp: ts_lex_state_def)
  have start: "ts_lex state (ws @ 34 # body @ tail) =
      ts_lex_run 2 tail (Suc (length ws) + length body) (length ws) None" for tail
    using ts_lex_skip [OF st assms(2), of "34 # body @ tail"] first
      ts_lex_run_2_body [OF assms(3), of tail "Suc (length ws)" "length ws" None]
    by simp
  have "ts_lex_run 2 (34 # rest) (Suc (length ws) + length body) (length ws) None =
      Some (sym_string, length ws, length ws + length body + 2)"
    by (cases rest) (simp_all add: ts_lex_state_def)
  moreover have "ts_lex_run 2 [] (Suc (length ws) + length body) (length ws) None = None"
    by (simp add: ts_lex_state_def)
  moreover have "ts_lex_run 2 (0 # rest) (Suc (length ws) + length body) (length ws) None = None"
    by (simp add: ts_lex_state_def)
  ultimately show ?thesis using start [of "34 # rest"] start [of "[]"] start [of "0 # rest"]
    by simp
qed

theorem string_token_witness:
  "ts_lex 19 [32, 34, 97, 92, 10, 34, 59] = Some (sym_string, 1, 6)
   \<and> ts_lex 19 [32, 34, 97, 92, 10] = None
   \<and> ts_lex 19 [32, 34, 97, 92, 10, 0, 59] = None"
  using string_token [of 19 "[32]" "[97, 92, 10]" "[59]"]
  by (simp add: is_space_def)

text \<open>
  The claim as written lets every code point other than the double quote into the string.
  The input of five code points: double quote, \<^verbatim>\<open>a\<close>, the code point 0,
  \<^verbatim>\<open>b\<close>, double quote, has a closing double quote and no other double quote in
  between, yet gives no string token: the automaton stops at the code point 0.
\<close>

theorem string_token_counterexample:
  "ts_lex 19 [34, 97, 0, 98, 34] = None"
  by (simp add: ts_lex_def ts_lex_state_def)

section \<open>Claims about the lexical modes\<close>

text \<open>
  Claim C2, as the code has it. There is no separate operand mode. Every parse state
  \<open>p\<close> that a shift of an operator or of an opening parenthesis leads to (a state
  where a new operand is expected) selects lex state 19, the same lexer entry point as
  the statement-start state; that entry point recognises \<^verbatim>\<open>print\<close> after any
  skipped whitespace, so the tokenizer does return the token \<^verbatim>\<open>print\<close> in these
  states. It is the parse table that excludes \<^verbatim>\<open>print\<close> there: the row of \<open>p\<close>
  has no action for it.
\<close>

theorem operand_mode_shared:
  assumes "state < STATE_COUNT"
    and "t \<in> set operator_tokens"
    and "SHIFT p \<in> set (ts_language_actions state t)"
    and "\<forall>c \<in> set ws. is_space c"
  shows "ts_lex_modes ! p = ts_lex_modes ! start_state
       \<and> ts_lex (ts_lex_modes ! p) (ws @ codes ''print'' @ rest) =
           Some (anon_sym_print, length ws, length ws + 5)
       \<and> ts_language_actions p anon_sym_print = []"
proof -
  have p: "p \<in> {8, 13, 14, 15, 16, 17, 18, 20, 21}"
    using operand_states [OF assms(1)] assms(2,3) by blast
  then have m: "ts_lex_modes ! p = 19"
    by (elim insertE emptyE) (simp_all add: ts_lex_modes_def)
  have "ts_lex_modes ! start_state = 19" by (simp add: ts_lex_modes_def start_state_def)
  moreover have "ts_language_actions p anon_sym_print = []"
    using p by (elim insertE emptyE) (simp_all add: table_defs)
  ultimately show ?thesis using m ts_lex_print [OF assms(4)] by simp
qed

theorem operand_mode_shared_witness:
  "ts_lex_modes ! 16 = ts_lex_modes ! start_state
   \<and> ts_lex (ts_lex_modes ! 16) (codes '' print 1'') = Some (anon_sym_print, 1, 6)
   \<and> ts_language_actions 16 anon_sym_print = []"
proof -
  have "SHIFT 16 \<in> set (ts_language_actions 26 anon_sym_PLUS)"
    by (simp add: table_defs)
  then show ?thesis
    using operand_mode_shared [of 26 anon_sym_PLUS 16 "codes '' ''" "codes '' 1''"]
    by (simp add: operator_tokens_def STATE_COUNT_def is_space_def codes_def
          ts_lex_modes_def start_state_def)
qed

text \<open>
  The claim as written says that \<^verbatim>\<open>print\<close> is not recognised by the lexer entry
  point of an operand state. State 16 is the state after the operator \<^verbatim>\<open>+\<close> (state
  26, behind a complete expression, shifts \<^verbatim>\<open>+\<close> to it), and the lexer entry point
  of state 16 does recognise \<^verbatim>\<open>print\<close>.
\<close>

theorem operand_mode_counterexample:
  "ts_language_actions 26 anon_sym_PLUS = [SHIFT 16]
   \<and> ts_lex (ts_lex_modes ! 16) (codes ''print'') = Some (anon_sym_print, 0, 5)"
  by (simp add: table_defs ts_lex_modes_def ts_lex_def codes_def ts_lex_state_def)

section \<open>Claims about single parses\<close>

text \<open>
  Claim C1, as the code has it. Parsing \<^verbatim>\<open>print 1;\<close> yields a
  \<^verbatim>\<open>print_statement\<close> node with three children, the \<^verbatim>\<open>print\<close> token, the
  number and the \<^verbatim>\<open>;\<close>, so the number is the child at position 1. The node has no
  fields: every reduce action for \<^verbatim>\<open>sym_print_statement\<close> in
  \<^verbatim>\<open>ts_parse_actions\<close> has three children and production id 0, the field map of
  production 0 is empty, and so looking up \<^verbatim>\<open>expression\<close> on the node gives no
  child. The field map entry \<^verbatim>\<open>expression\<close> to child 1 belongs to production 2,
  which only the reduce actions of \<^verbatim>\<open>sym_group_expression\<close> carry.
\<close>

theorem print_statement_fields:
  "parse (codes ''print 1;'') =
     Some (Node sym_program 0 8
       [Node sym_print_statement 0 8
          [Token anon_sym_print 0 5, Token sym_number 6 7, Token anon_sym_SEMI 7 8] []] [])
   \<and> children (Node sym_print_statement 0 8
          [Token anon_sym_print 0 5, Token sym_number 6 7, Token anon_sym_SEMI 7 8] []) ! 1 =
       Token sym_number 6 7
   \<and> child_by_field_name (Node sym_print_statement 0 8
          [Token anon_sym_print 0 5, Token sym_number 6 7, Token anon_sym_SEMI 7 8] [])
          ''expression'' = None
   \<and> (\<forall>i n production_id.
          REDUCE sym_print_statement n production_id \<in> set (snd (ts_parse_actions i))
          \<longrightarrow> n = 3 \<and> production_id = 0)
   \<and> ts_language_field_map 0 = []
   \<and> ts_language_field_map 2 = [(field_expression, 1)]
   \<and> (\<forall>i symbol n.
          REDUCE symbol n 2 \<in> set (snd (ts_parse_actions i))
          \<longrightarrow> symbol = sym_group_expression)"
proof -
  have "parse (codes ''print 1;'') =
     Some (Node sym_program 0 8
       [Node sym_print_statement 0 8
          [Token anon_sym_print 0 5, Token sym_number 6 7, Token anon_sym_SEMI 7 8] []] [])"
    by code_simp
  moreover have "child_by_field_name (Node sym_print_statement 0 8
          [Token anon_sym_print 0 5, Token sym_number 6 7, Token anon_sym_SEMI 7 8] [])
          ''expression'' = None"
    by (simp add: child_by_field_name_def field_ids_def)
  moreover have "REDUCE sym_print_statement n production_id \<in> set (snd (ts_parse_actions i))
          \<longrightarrow> n = 3 \<and> production_id = 0" for i n production_id
    by (simp add: ts_parse_actions_def)
  moreover have "REDUCE symbol n 2 \<in> set (snd (ts_parse_actions i))
          \<longrightarrow> symbol = sym_group_expression" for i symbol n
    by (simp add: ts_parse_actions_def)
  moreover have "ts_language_field_map 0 = []" "ts_language_field_map 2 = [(field_expression, 1)]"
    by (simp_all add: ts_language_field_map_def PRODUCTION_ID_COUNT_def ts_field_map_slices_def
        ts_field_map_entries_def)
  ultimately show ?thesis by simp
qed

theorem print_statement_fields_witness:
  "REDUCE sym_print_statement 3 0 \<in> set (snd (ts_parse_actions 94))
   \<and> REDUCE sym_group_expression 3 2 \<in> set (snd (ts_parse_actions 34))
   \<and> ts_language_field_map 0 = []"
  using print_statement_fields by (simp add: ts_parse_actions_def)

text \<open>
  The claim as written has the field \<^verbatim>\<open>expression\<close> of the
  \<^verbatim>\<open>print_statement\<close> resolve to the number. On the tree of \<^verbatim>\<open>print 1;\<close> the
  lookup gives nothing.
\<close>

theorem print_statement_fields_counterexample:
  "parse (codes ''print 1;'') =
     Some (Node sym_program 0 8
       [Node sym_print_statement 0 8
          [Token anon_sym_print 0 5, Token sym_number 6 7, Token anon_sym_SEMI 7 8]
          (ts_language_field_map 0)] [])
   \<and> child_by_field_name (Node sym_print_statement 0 8
          [Token anon_sym_print 0 5, Token sym_number 6 7, Token anon_sym_SEMI 7 8]
          (ts_language_field_map 0)) ''expression'' \<noteq> Some (Token sym_number 6 7)"
  by code_simp

text \<open>
  Claim C10. Parsing the empty input, or an input of whitespace only, succeeds without
  error recovery. In the start state the end of the input is answered by the reduce of
  \<^verbatim>\<open>sym_program\<close> with no children; the table sends the start state under
  \<^verbatim>\<open>sym_program\<close> to state 29, where the end of the input is answered by accept.
  The first round of the engine is that reduce and the second that accept, and the result
  is a \<^verbatim>\<open>program\<close> node without children and without an error node.
\<close>

theorem empty_input:
  assumes "\<forall>c \<in> set ws. is_space c"
  shows "parse ws = Some (Node sym_program 0 0 [] [])
       \<and> \<not> has_error (Node sym_program 0 0 [] [])
       \<and> ts_language_actions start_state ts_builtin_sym_end = [REDUCE sym_program 0 0]
       \<and> ts_language_next_state start_state sym_program = 29
       \<and> ts_language_actions 29 ts_builtin_sym_end = [ACCEPT_INPUT]
       \<and> engine_step ws \<lparr>stack = [], position = 0, lookahead_token = None\<rparr> =
           Inl \<lparr>stack = [(29, Node sym_program 0 0 [] [])], position = 0,
                lookahead_token = Some (ts_builtin_sym_end, length ws, length ws)\<rparr>
       \<and> engine_step ws \<lparr>stack = [(29, Node sym_program 0 0 [] [])], position = 0,
                lookahead_token = Some (ts_builtin_sym_end, length ws, length ws)\<rparr> =
           Inr (Node sym_program 0 0 [] [])"
proof -
  have "ts_lex 19 (ws @ []) = ts_lex_run 19 [] (length ws) (length ws) None"
    by (rule ts_lex_skip [OF _ assms]) simp
  then have tok: "next_token ws 0 19 = Some (ts_builtin_sym_end, length ws, length ws)"
    by (simp add: next_token_def ts_lex_state_def)
  have acts: "ts_language_actions start_state ts_builtin_sym_end = [REDUCE sym_program 0 0]"
    "ts_language_next_state start_state sym_program = 29"
    "ts_language_actions 29 ts_builtin_sym_end = [ACCEPT_INPUT]"
    by (simp_all add: table_defs start_state_def)
  have fm: "ts_language_field_map 0 = []"
    by (simp add: ts_language_field_map_def PRODUCTION_ID_COUNT_def ts_field_map_slices_def)
  have mode: "ts_lex_modes ! start_state = 19"
    by (simp add: ts_lex_modes_def start_state_def)
  have step1: "engine_step ws \<lparr>stack = [], position = 0, lookahead_token = None\<rparr> =
           Inl \<lparr>stack = [(29, Node sym_program 0 0 [] [])], position = 0,
                lookahead_token = Some (ts_builtin_sym_end, length ws, length ws)\<rparr>"
    by (simp add: engine_step_def tok acts fm mode tree_builder_def)
  have step2: "engine_step ws \<lparr>stack = [(29, Node sym_program 0 0 [] [])], position = 0,
                lookahead_token = Some (ts_builtin_sym_end, length ws, length ws)\<rparr> =
           Inr (Node sym_program 0 0 [] [])"
    by (simp add: engine_step_def acts)
  have "parse ws = Some (Node sym_program 0 0 [] [])"
    unfolding parse_def
    by (subst engine_loop.simps, simp only: step1 sum.case,
        subst engine_loop.simps, simp only: step2 sum.case)
  with acts step1 step2 show ?thesis by simp
qed

theorem empty_input_witness:
  "parse (codes '' '') = Some (Node sym_program 0 0 [] [])"
  using empty_input [of "codes '' ''"] by (simp add: codes_def is_space_def)

section \<open>Claims about precedence and associativity\<close>








section \<open>Claims about every input\<close>

text \<open>
  Claim C5. For every input, malformed input included, the parse terminates and returns
  a complete tree, a \<^verbatim>\<open>program\<close> node that lies within the input; the loop never
  stops in any other way. The invariant of the loop holds of the initial parser state and
  is kept by every round that does not accept. In every state of the loop an error
  condition (a lex error, a missing action or \<^verbatim>\<open>RECOVER\<close>) leads to error recovery,
  which leaves an error node on top of the stack and the input consumed up to a
  \<^verbatim>\<open>;\<close> or up to the end of the input, never moving backwards.
\<close>

theorem parse_always_returns:
  "(\<exists>root. parse buffer = Some root \<and> node_kind root = sym_program
        \<and> end_byte root \<le> length buffer)
   \<and> parser_inv buffer \<lparr>stack = [], position = 0, lookahead_token = None\<rparr>
   \<and> (\<forall>p p'. parser_inv buffer p \<and> engine_step buffer p = Inl p' \<longrightarrow> parser_inv buffer p')
   \<and> (\<forall>p. parser_inv buffer p \<and> error_condition buffer p \<longrightarrow>
        engine_step buffer p = Inl (error_recovery buffer p)
        \<and> resynchronised buffer (error_recovery buffer p)
        \<and> position p \<le> position (error_recovery buffer p)
        \<and> position (error_recovery buffer p) \<le> length buffer)"
proof -
  have "\<exists>root. parse buffer = Some root \<and> node_kind root = sym_program
        \<and> end_byte root \<le> length buffer"
    using parse_total [of buffer] by (auto simp: result_ok_def)
  moreover have "parser_inv buffer p'" if "parser_inv buffer p" "engine_step buffer p = Inl p'"
    for p p'
    using engine_step_facts(1) [OF that] by simp
  moreover have "engine_step buffer p = Inl (error_recovery buffer p)
        \<and> resynchronised buffer (error_recovery buffer p)
        \<and> position p \<le> position (error_recovery buffer p)
        \<and> position (error_recovery buffer p) \<le> length buffer"
    if inv: "parser_inv buffer p" and err: "error_condition buffer p" for p
  proof -
    have "engine_step buffer p = Inl (error_recovery buffer p)"
      using err
      by (auto simp: error_condition_def lookahead_of_def engine_step_def Let_def
          split: option.splits)
    moreover have "resynchronised buffer (error_recovery buffer p)"
      using error_recovery_facts(6) [OF inv]
      by (auto simp: resynchronised_def lex_mode_0)
    moreover have "position p \<le> position (error_recovery buffer p)"
      by (rule error_recovery_facts(2) [OF inv])
    moreover have "position (error_recovery buffer p) \<le> length buffer"
      using error_recovery_facts(1) [OF inv] by (simp add: parser_inv_def)
    ultimately show ?thesis by simp
  qed
  ultimately show ?thesis using parser_inv_initial by blast
qed

theorem parse_always_returns_witness:
  "engine_step (codes ''@ 1; 2;'') \<lparr>stack = [], position = 0, lookahead_token = None\<rparr> =
     Inl (error_recovery (codes ''@ 1; 2;'') \<lparr>stack = [], position = 0, lookahead_token = None\<rparr>)
   \<and> error_recovery (codes ''@ 1; 2;'') \<lparr>stack = [], position = 0, lookahead_token = None\<rparr> =
     \<lparr>stack = [(2, Node ts_builtin_sym_error 0 4
                 [Token ts_builtin_sym_error 0 1, Token sym_number 2 3,
                  Token anon_sym_SEMI 3 4] [])],
      position = 4, lookahead_token = None\<rparr>
   \<and> parse (codes ''@ 1; 2;'') =
     Some (Node sym_program 0 7
       [Node ts_builtin_sym_error 0 4
          [Token ts_builtin_sym_error 0 1, Token sym_number 2 3, Token anon_sym_SEMI 3 4] [],
        Node sym_expression_statement 5 7 [Token sym_number 5 6, Token anon_sym_SEMI 6 7] []]
       [])"
proof -
  have err: "error_condition (codes ''@ 1; 2;'')
      \<lparr>stack = [], position = 0, lookahead_token = None\<rparr>"
    by code_simp
  have rec: "error_recovery (codes ''@ 1; 2;'')
      \<lparr>stack = [], position = 0, lookahead_token = None\<rparr> =
     \<lparr>stack = [(2, Node ts_builtin_sym_error 0 4
                 [Token ts_builtin_sym_error 0 1, Token sym_number 2 3,
                  Token anon_sym_SEMI 3 4] [])],
      position = 4, lookahead_token = None\<rparr>"
    by code_simp
  have par: "parse (codes ''@ 1; 2;'') =
     Some (Node sym_program 0 7
       [Node ts_builtin_sym_error 0 4
          [Token ts_builtin_sym_error 0 1, Token sym_number 2 3, Token anon_sym_SEMI 3 4] [],
        Node sym_expression_statement 5 7 [Token sym_number 5 6, Token anon_sym_SEMI 6 7] []]
       [])"
    by code_simp
  show ?thesis
    using parse_always_returns [of "codes ''@ 1; 2;''"] err rec par by simp
qed

text \<open>
  Claim C6, as the code has it. For every input, malformed input included, the parse
  returns a tree in which every node's byte range runs from the start of its first child
  to the end of its last child, with the children's ranges in order and without overlap;
  the tree lies within the input and its tokens are in input order. Every code point of
  the input that lies in no token of the tree is whitespace, so the source slices of the
  tokens in tree order, together with the whitespace between them, make up the input
  exactly. The ranges of the children of a node need not touch: the tokenizer skips
  whitespace in front of a token (\<^verbatim>\<open>SKIP\<close> in \<^verbatim>\<open>ts_lex\<close> moves the token
  start behind it), so a token starts behind the whitespace, and the skipped code points
  lie in the gaps between the children.
\<close>

theorem tree_covers_input:
  "\<exists>root. parse buffer = Some root
     \<and> well_ranged root
     \<and> end_byte root \<le> length buffer
     \<and> in_order (tokens_of root)
     \<and> (\<forall>t \<in> set (tokens_of root). start_byte t \<le> end_byte t \<and> end_byte t \<le> length buffer)
     \<and> (\<forall>i < length buffer.
          (\<exists>t \<in> set (tokens_of root). start_byte t \<le> i \<and> i < end_byte t)
          \<or> is_space (buffer ! i))
     \<and> reconstruct buffer 0 (tokens_of root) = buffer"
proof -
  from parse_total [of buffer] obtain root where
    root: "parse buffer = Some root" "result_ok buffer root" by blast
  then have wr: "well_ranged root" and en: "end_byte root \<le> length buffer"
    by (simp_all add: result_ok_def)
  note t = tokens_of_ranged [OF wr]
  have bounds: "start_byte t \<le> end_byte t \<and> end_byte t \<le> length buffer"
    if "t \<in> set (tokens_of root)" for t
    using t that en well_ranged_span [of t] by fastforce
  have cov: "\<forall>i < length buffer.
          (\<exists>t \<in> set (tokens_of root). start_byte t \<le> i \<and> i < end_byte t)
          \<or> is_space (buffer ! i)"
    using root(2) by (simp add: result_ok_def covered_def)
  have "reconstruct buffer 0 (tokens_of root) = drop 0 buffer"
    by (rule reconstruct_covered) (use t bounds cov in auto)
  then show ?thesis using root(1) wr en t bounds cov by auto
qed

theorem tree_covers_input_witness:
  "parse (codes ''1 +@ 2; 3 '') =
     Some (Node sym_program 0 9
       [Node ts_builtin_sym_error 0 7
          [Token sym_number 0 1, Token anon_sym_PLUS 2 3, Token ts_builtin_sym_error 3 4,
           Token sym_number 5 6, Token anon_sym_SEMI 6 7] [],
        Node ts_builtin_sym_error 8 9 [Token sym_number 8 9] []] [])
   \<and> reconstruct (codes ''1 +@ 2; 3 '') 0
       [Token sym_number 0 1, Token anon_sym_PLUS 2 3, Token ts_builtin_sym_error 3 4,
        Token sym_number 5 6, Token anon_sym_SEMI 6 7, Token sym_number 8 9]
     = codes ''1 +@ 2; 3 ''
   \<and> in_order
       [Token sym_number 0 1, Token anon_sym_PLUS 2 3, Token ts_builtin_sym_error 3 4,
        Token sym_number 5 6, Token anon_sym_SEMI 6 7, Token sym_number 8 9]
   \<and> is_space (codes ''1 +@ 2; 3 '' ! 1)
   \<and> is_space (codes ''1 +@ 2; 3 '' ! 9)"
proof -
  define root where "root = Node sym_program 0 9
       [Node ts_builtin_sym_error 0 7
          [Token sym_number 0 1, Token anon_sym_PLUS 2 3, Token ts_builtin_sym_error 3 4,
           Token sym_number 5 6, Token anon_sym_SEMI 6 7] [],
        Node ts_builtin_sym_error 8 9 [Token sym_number 8 9] []] []"
  have par: "parse (codes ''1 +@ 2; 3 '') = Some root"
    unfolding root_def by code_simp
  have toks: "tokens_of root =
      [Token sym_number 0 1, Token anon_sym_PLUS 2 3, Token ts_builtin_sym_error 3 4,
       Token sym_number 5 6, Token anon_sym_SEMI 6 7, Token sym_number 8 9]"
    unfolding root_def by simp
  have len: "length (codes ''1 +@ 2; 3 '') = 10"
    by (simp add: codes_def)
  from tree_covers_input [of "codes ''1 +@ 2; 3 ''"]
  have facts: "in_order (tokens_of root)"
      "reconstruct (codes ''1 +@ 2; 3 '') 0 (tokens_of root) = codes ''1 +@ 2; 3 ''"
    and cover: "\<forall>i < 10. (\<exists>t \<in> set (tokens_of root). start_byte t \<le> i \<and> i < end_byte t)
        \<or> is_space (codes ''1 +@ 2; 3 '' ! i)"
    unfolding par len by simp_all
  from cover [rule_format, of 1] have s1: "is_space (codes ''1 +@ 2; 3 '' ! 1)"
    unfolding toks by simp
  from cover [rule_format, of 9] have s9: "is_space (codes ''1 +@ 2; 3 '' ! 9)"
    unfolding toks by simp
  from par facts s1 s9 show ?thesis
    unfolding toks unfolding root_def by simp
qed

text \<open>
  The claim as written has the children's ranges tile the range of their node without
  gaps. In the tree of \<^verbatim>\<open>1 + 2;\<close> the binary expression has the range 0 to 5 and
  its children have the ranges 0 to 1, 2 to 3 and 4 to 5: the offsets 1 and 3, the
  blanks, lie in no child.
\<close>

theorem tree_covers_input_counterexample:
  "parse (codes ''1 + 2;'') =
     Some (Node sym_program 0 6
       [Node sym_expression_statement 0 6
         [Node sym_binary_expression 0 5
           [Token sym_number 0 1, Token anon_sym_PLUS 2 3, Token sym_number 4 5]
           [(field_left, 0), (field_right, 2)],
          Token anon_sym_SEMI 5 6] []] [])
   \<and> \<not> gap_free (Node sym_binary_expression 0 5
           [Token sym_number 0 1, Token anon_sym_PLUS 2 3, Token sym_number 4 5]
           [(field_left, 0), (field_right, 2)])
   \<and> \<not> gap_free (Node sym_program 0 6
       [Node sym_expression_statement 0 6
         [Node sym_binary_expression 0 5
           [Token sym_number 0 1, Token anon_sym_PLUS 2 3, Token sym_number 4 5]
           [(field_left, 0), (field_right, 2)],
          Token anon_sym_SEMI 5 6] []] [])"
  by code_simp

end
